theory Spec2Isabelle
  imports Main "HOL-Library.Word"
begin

section \<open>Data model of the blend file loader\<close>

text \<open>
  The loader (\<^verbatim>\<open>src/game/loader.py\<close>) works on Python \<^verbatim>\<open>bytes\<close>: a byte is an
  8-bit word, a byte string a list of them. Python integers are unbounded, so every
  offset, count and decoded number is an \<open>int\<close>.
\<close>

type_synonym byte = "8 word"
type_synonym bytes = "byte list"

definition bytes_of :: "string \<Rightarrow> bytes" where
  "bytes_of s = map of_char s"

text \<open>
  The exceptions the loader can leave with. The four
  \<^verbatim>\<open>BlenderFileImportException\<close> messages are the four named failures:
  \<^verbatim>\<open>'Bad file header'\<close>, \<^verbatim>\<open>'Malformed index'\<close>,
  \<^verbatim>\<open>'Could not find blend file index'\<close> and
  \<^verbatim>\<open>'End of the blend file was not found'\<close>. \<open>StructError\<close> is Python's
  \<^verbatim>\<open>struct.error\<close>, \<open>TypeError\<close> the error of calling a namedtuple constructor
  with the wrong number of arguments, and \<open>ValueError\<close> the error of \<^verbatim>\<open>read\<close> on a
  length below -1.
\<close>

datatype error =
    MalformedHeader
  | MalformedIndex
  | MissingIndex
  | MissingTerminator
  | StructError
  | TypeError
  | ValueError

datatype Arch = X32 | X64

datatype Endian = Little | Big

record VersionInfo =
  major :: int
  minor :: int
  rev' :: int

record BlendFileInfo =
  version :: VersionInfo
  arch :: Arch
  endian :: Endian

section \<open>Header decoder\<close>

text \<open>
  The field \<^verbatim>\<open>rev\<close> of \<^verbatim>\<open>VersionInfo\<close> is \<open>rev'\<close> here (\<open>rev\<close> reverses a list).
  \<^verbatim>\<open>VersionInfo(*version)\<close>: the namedtuple constructor takes exactly three
  positional arguments.
\<close>

fun VersionInfo_of :: "int list \<Rightarrow> error + VersionInfo" where
  "VersionInfo_of [a, b, c] = Inr \<lparr>major = a, minor = b, rev' = c\<rparr>"
| "VersionInfo_of _ = Inl TypeError"

text \<open>
  \<^verbatim>\<open>BlenderFile.parse_header\<close>. The result \<open>Inr None\<close> is the source's
  \<^verbatim>\<open>return None\<close>; \<open>Inl\<close> would be an exception.
\<close>

definition parse_header :: "bytes \<Rightarrow> error + BlendFileInfo option" where
  "parse_header header =
     (if length header \<noteq> 12 \<or> take 7 header \<noteq> bytes_of ''BLENDER'' then Inr None
      else
        let arch_b = take 1 (drop 7 header);
            endian_b = take 1 (drop 8 header);
            version_l = map (\<lambda>x. uint x - 48) (drop 9 header)
        in
          if arch_b \<noteq> bytes_of ''-'' \<and> arch_b \<noteq> bytes_of ''_'' then Inr None
          else if endian_b \<noteq> bytes_of ''v'' \<and> endian_b \<noteq> bytes_of ''V'' then Inr None
          else
            (case VersionInfo_of version_l of
               Inl e \<Rightarrow> Inl e
             | Inr v \<Rightarrow>
                 Inr (Some \<lparr>version = v,
                            arch = (if arch_b = bytes_of ''-'' then X64 else X32),
                            endian = (if endian_b = bytes_of ''v'' then Little else Big)\<rparr>)))"

text \<open>
  The check of \<^verbatim>\<open>BlenderFile.__init__\<close> on the decoder's result:
  \<^verbatim>\<open>if header is None: raise BlenderFileImportException('Bad file header')\<close>.
\<close>

definition decode_header :: "bytes \<Rightarrow> error + BlendFileInfo" where
  "decode_header header =
     (case parse_header header of
        Inl e \<Rightarrow> Inl e
      | Inr None \<Rightarrow> Inl MalformedHeader
      | Inr (Some info) \<Rightarrow> Inr info)"

section \<open>Primitive codec\<close>

text \<open>
  Python slicing \<^verbatim>\<open>xs[i:j]\<close> and \<^verbatim>\<open>xs[i:]\<close>: a negative index counts from the end,
  and an index out of range is clamped, so a slice never raises.
\<close>

definition slice_index :: "nat \<Rightarrow> int \<Rightarrow> nat" where
  "slice_index n i = (if i < 0 then nat (i + int n) else min (nat i) n)"

definition py_slice :: "'a list \<Rightarrow> int \<Rightarrow> int \<Rightarrow> 'a list" where
  "py_slice xs i j =
     (let lo = slice_index (length xs) i; hi = slice_index (length xs) j
      in take (hi - lo) (drop lo xs))"

definition py_slice_from :: "'a list \<Rightarrow> int \<Rightarrow> 'a list" where
  "py_slice_from xs i = drop (slice_index (length xs) i) xs"

text \<open>
  \<^verbatim>\<open>bytes.split(sep, maxsplit)\<close> for a one-byte separator: at most \<open>maxsplit\<close> splits
  from the left, the last piece being the unsplit remainder; a negative \<open>maxsplit\<close> means
  no limit (a byte string of length \<open>n\<close> has at most \<open>n\<close> separators).
\<close>

fun split_at :: "byte \<Rightarrow> nat \<Rightarrow> bytes \<Rightarrow> bytes list" where
  "split_at sep 0 xs = [xs]"
| "split_at sep (Suc n) xs =
     (if sep \<in> set xs
      then takeWhile (\<lambda>b. b \<noteq> sep) xs # split_at sep n (tl (dropWhile (\<lambda>b. b \<noteq> sep) xs))
      else [xs])"

definition py_split :: "byte \<Rightarrow> int \<Rightarrow> bytes \<Rightarrow> bytes list" where
  "py_split sep maxsplit xs =
     split_at sep (if maxsplit < 0 then length xs else nat maxsplit) xs"

text \<open>
  The integer formats of the \<^verbatim>\<open>struct\<close> module under the prefixes \<^verbatim>\<open><\<close> and
  \<^verbatim>\<open>>\<close> (standard sizes, no padding): the unsigned value of a byte string in either
  byte order, and its two's complement reading for the signed formats \<^verbatim>\<open>h\<close> and
  \<^verbatim>\<open>i\<close>.
\<close>

fun le_uint :: "bytes \<Rightarrow> int" where
  "le_uint [] = 0"
| "le_uint (b # bs) = uint b + 256 * le_uint bs"

definition unsigned_of :: "Endian \<Rightarrow> bytes \<Rightarrow> int" where
  "unsigned_of e bs = (case e of Little \<Rightarrow> le_uint bs | Big \<Rightarrow> le_uint (rev bs))"

definition signed_of :: "Endian \<Rightarrow> bytes \<Rightarrow> int" where
  "signed_of e bs =
     (let v = unsigned_of e bs
      in if 2 ^ (8 * length bs - 1) \<le> v then v - 2 ^ (8 * length bs) else v)"

text \<open>
  \<^verbatim>\<open>Struct.unpack_from(buffer, offset)\<close> for a format of \<open>sz\<close> bytes: the bytes the
  fields are decoded from, or \<^verbatim>\<open>struct.error\<close>. A negative offset counts from the end of
  the buffer.
\<close>

definition struct_unpack_from :: "nat \<Rightarrow> bytes \<Rightarrow> int \<Rightarrow> error + bytes" where
  "struct_unpack_from sz buf offset =
     (let n = int (length buf) in
      if offset < 0 \<and> 0 < offset + int sz then Inl StructError
      else if offset < 0 \<and> offset + n < 0 then Inl StructError
      else
        let off = (if offset < 0 then offset + n else offset) in
        if n - off < int sz then Inl StructError
        else Inr (take sz (drop (nat off) buf)))"

text \<open>\<^verbatim>\<open>Struct.unpack(buffer)\<close>: the buffer must have exactly the format's size.\<close>

definition struct_unpack :: "nat \<Rightarrow> bytes \<Rightarrow> error + bytes" where
  "struct_unpack sz buf = (if length buf \<noteq> sz then Inl StructError else Inr buf)"

text \<open>
  \<^verbatim>\<open>Struct.iter_unpack(buffer)\<close> for a two-byte format: the buffer is cut into
  consecutive records, and its length must be a multiple of the size.
\<close>

fun chunks2 :: "bytes \<Rightarrow> bytes list" where
  "chunks2 (a # b # rest) = [a, b] # chunks2 rest"
| "chunks2 _ = []"

text \<open>
  The \<^verbatim>\<open>NamedStruct\<close> instances of \<^verbatim>\<open>_parse_index\<close>:
  \<^verbatim>\<open>Int\<close> (format \<^verbatim>\<open>i\<close>), \<^verbatim>\<open>Short\<close> (format \<^verbatim>\<open>h\<close>) and
  \<^verbatim>\<open>StructField\<close> (format \<^verbatim>\<open>hh\<close>, fields \<^verbatim>\<open>type\<close> and \<^verbatim>\<open>name\<close>), in the
  byte order of the file.
\<close>

record StructField =
  field_type :: int
  field_name :: int

definition Int_unpack_from :: "Endian \<Rightarrow> bytes \<Rightarrow> int \<Rightarrow> error + int" where
  "Int_unpack_from e data offset =
     (case struct_unpack_from 4 data offset of
        Inl err \<Rightarrow> Inl err
      | Inr bs \<Rightarrow> Inr (signed_of e bs))"

definition Short_unpack_from :: "Endian \<Rightarrow> bytes \<Rightarrow> int \<Rightarrow> error + int" where
  "Short_unpack_from e data offset =
     (case struct_unpack_from 2 data offset of
        Inl err \<Rightarrow> Inl err
      | Inr bs \<Rightarrow> Inr (signed_of e bs))"

definition Short_iter_unpack :: "Endian \<Rightarrow> bytes \<Rightarrow> error + int list" where
  "Short_iter_unpack e data =
     (if length data mod 2 \<noteq> 0 then Inl StructError
      else Inr (map (signed_of e) (chunks2 data)))"

definition StructField_unpack_from :: "Endian \<Rightarrow> bytes \<Rightarrow> int \<Rightarrow> error + StructField" where
  "StructField_unpack_from e data offset =
     (case struct_unpack_from 4 data offset of
        Inl err \<Rightarrow> Inl err
      | Inr bs \<Rightarrow>
          Inr \<lparr>field_type = signed_of e (take 2 bs), field_name = signed_of e (drop 2 bs)\<rparr>)"

section \<open>Schema decoder\<close>

text \<open>
  The field \<^verbatim>\<open>fields\<close> of \<^verbatim>\<open>BlendStructRef\<close> is \<open>fields'\<close> here (the record package
  keeps \<open>fields\<close> for itself).
\<close>

record BlendStructRef =
  name :: int
  fields' :: "StructField list"

record BlendIndex =
  names :: "bytes list"
  types :: "(bytes \<times> int) list"
  structures :: "BlendStructRef list"

text \<open>The local function \<^verbatim>\<open>align\<close> of \<^verbatim>\<open>_parse_index\<close>, on the running offset.\<close>

definition align :: "int \<Rightarrow> int" where
  "align offset = (let tmp = offset mod 4 in offset + (if tmp = 0 then 0 else 4 - tmp))"

text \<open>
  \<^verbatim>\<open>_parse_index\<close> decodes the payload in four sections, one after the other, each
  starting at the running offset the previous one left. The model has one function per
  section; each returns what it decoded and the offset after its \<^verbatim>\<open>align()\<close>.

  The names: \<^verbatim>\<open>name_count\<close> at offset 8, then the strings.
\<close>

definition read_names :: "Endian \<Rightarrow> bytes \<Rightarrow> error + (bytes list \<times> int)" where
  "read_names e data =
     (let offset = 8 in
      case Int_unpack_from e data offset of
        Inl err \<Rightarrow> Inl err
      | Inr name_count \<Rightarrow>
          let names = butlast (py_split 0 name_count (py_slice_from data (offset + 4)));
              offset = align (offset + (int (sum_list (map length names))
                                        + int (length names) + 4))
          in Inr (names, offset))"

text \<open>The type names: the tag \<^verbatim>\<open>TYPE\<close>, \<^verbatim>\<open>type_count\<close>, then the strings.\<close>

definition read_type_names :: "Endian \<Rightarrow> bytes \<Rightarrow> int \<Rightarrow> error + (bytes list \<times> int \<times> int)" where
  "read_type_names e data offset =
     (if py_slice data offset (offset + 4) \<noteq> bytes_of ''TYPE'' then Inl MalformedIndex
      else
        case Int_unpack_from e data (offset + 4) of
          Inl err \<Rightarrow> Inl err
        | Inr type_count \<Rightarrow>
            let type_names = butlast (py_split 0 type_count (py_slice_from data (offset + 8)));
                offset = align (offset + (int (sum_list (map length type_names))
                                          + int (length type_names) + 8))
            in Inr (type_names, type_count, offset))"

text \<open>
  The type lengths: the tag \<^verbatim>\<open>TLEN\<close>, then one \<^verbatim>\<open>Short\<close> per type, zipped with
  the type names.
\<close>

definition read_type_sizes ::
  "Endian \<Rightarrow> bytes \<Rightarrow> bytes list \<Rightarrow> int \<Rightarrow> int \<Rightarrow> error + ((bytes \<times> int) list \<times> int)" where
  "read_type_sizes e data type_names type_count offset =
     (if py_slice data offset (offset + 4) \<noteq> bytes_of ''TLEN'' then Inl MalformedIndex
      else
        let offset = offset + 4;
            type_data_length = 2 * type_count
        in
          case Short_iter_unpack e (py_slice data offset (offset + type_data_length)) of
            Inl err \<Rightarrow> Inl err
          | Inr type_sizes \<Rightarrow>
              Inr (zip type_names type_sizes, align (offset + type_data_length)))"

text \<open>
  The structures: the inner loop \<^verbatim>\<open>for _ in range(field_count)\<close> and the outer loop
  \<^verbatim>\<open>for _ in range(structure_count)\<close>, with the running offset. A negative count
  gives an empty \<^verbatim>\<open>range\<close>.
\<close>

fun read_fields :: "Endian \<Rightarrow> bytes \<Rightarrow> nat \<Rightarrow> int \<Rightarrow> error + (StructField list \<times> int)" where
  "read_fields e data 0 offset = Inr ([], offset)"
| "read_fields e data (Suc n) offset =
     (case StructField_unpack_from e data offset of
        Inl err \<Rightarrow> Inl err
      | Inr f \<Rightarrow>
          (case read_fields e data n (offset + 4) of
             Inl err \<Rightarrow> Inl err
           | Inr (fs, offset') \<Rightarrow> Inr (f # fs, offset')))"

fun read_structs :: "Endian \<Rightarrow> bytes \<Rightarrow> nat \<Rightarrow> int \<Rightarrow> error + (BlendStructRef list \<times> int)" where
  "read_structs e data 0 offset = Inr ([], offset)"
| "read_structs e data (Suc n) offset =
     (case Short_unpack_from e data offset of
        Inl err \<Rightarrow> Inl err
      | Inr structure_type_index \<Rightarrow>
          (case Short_unpack_from e data (offset + 2) of
             Inl err \<Rightarrow> Inl err
           | Inr field_count \<Rightarrow>
               (case read_fields e data (nat field_count) (offset + 4) of
                  Inl err \<Rightarrow> Inl err
                | Inr (fs, offset') \<Rightarrow>
                    (case read_structs e data n offset' of
                       Inl err \<Rightarrow> Inl err
                     | Inr (ss, offset'') \<Rightarrow>
                         Inr (\<lparr>name = structure_type_index, fields' = fs\<rparr> # ss, offset'')))))"

definition read_structures :: "Endian \<Rightarrow> bytes \<Rightarrow> int \<Rightarrow> error + BlendStructRef list" where
  "read_structures e data offset =
     (if py_slice data offset (offset + 4) \<noteq> bytes_of ''STRC'' then Inl MalformedIndex
      else
        let offset = offset + 8 in
        case Int_unpack_from e data (offset - 4) of
          Inl err \<Rightarrow> Inl err
        | Inr structure_count \<Rightarrow>
            (case read_structs e data (nat structure_count) offset of
               Inl err \<Rightarrow> Inl err
             | Inr (structs, offset') \<Rightarrow> Inr structs))"

text \<open>The decoding of the payload \<^verbatim>\<open>data\<close> in \<^verbatim>\<open>_parse_index\<close>.\<close>

definition parse_index_data :: "Endian \<Rightarrow> bytes \<Rightarrow> error + BlendIndex" where
  "parse_index_data e data =
     (if py_slice data 0 8 \<noteq> bytes_of ''SDNANAME'' then Inl MalformedIndex
      else
        case read_names e data of
          Inl err \<Rightarrow> Inl err
        | Inr (nms, offset1) \<Rightarrow>
            (case read_type_names e data offset1 of
               Inl err \<Rightarrow> Inl err
             | Inr (type_names, type_count, offset2) \<Rightarrow>
                 (case read_type_sizes e data type_names type_count offset2 of
                    Inl err \<Rightarrow> Inl err
                  | Inr (tps, offset3) \<Rightarrow>
                      (case read_structures e data offset3 of
                         Inl err \<Rightarrow> Inl err
                       | Inr structs \<Rightarrow>
                           Inr \<lparr>names = nms, types = tps, structures = structs\<rparr>))))"

text \<open>
  The offsets at which a run of \<^verbatim>\<open>_parse_index\<close> looks for the tags \<^verbatim>\<open>TYPE\<close>,
  \<^verbatim>\<open>TLEN\<close> and \<^verbatim>\<open>STRC\<close>: the running offset when the run reaches the check, \<open>None\<close>
  when it raises before.
\<close>

definition TYPE_offset :: "Endian \<Rightarrow> bytes \<Rightarrow> int option" where
  "TYPE_offset e data =
     (if py_slice data 0 8 \<noteq> bytes_of ''SDNANAME'' then None
      else case read_names e data of
             Inl err \<Rightarrow> None
           | Inr (nms, offset1) \<Rightarrow> Some offset1)"

definition TLEN_offset :: "Endian \<Rightarrow> bytes \<Rightarrow> int option" where
  "TLEN_offset e data =
     (if py_slice data 0 8 \<noteq> bytes_of ''SDNANAME'' then None
      else case read_names e data of
             Inl err \<Rightarrow> None
           | Inr (nms, offset1) \<Rightarrow>
               (case read_type_names e data offset1 of
                  Inl err \<Rightarrow> None
                | Inr (type_names, type_count, offset2) \<Rightarrow> Some offset2))"

definition STRC_offset :: "Endian \<Rightarrow> bytes \<Rightarrow> int option" where
  "STRC_offset e data =
     (if py_slice data 0 8 \<noteq> bytes_of ''SDNANAME'' then None
      else case read_names e data of
             Inl err \<Rightarrow> None
           | Inr (nms, offset1) \<Rightarrow>
               (case read_type_names e data offset1 of
                  Inl err \<Rightarrow> None
                | Inr (type_names, type_count, offset2) \<Rightarrow>
                    (case read_type_sizes e data type_names type_count offset2 of
                       Inl err \<Rightarrow> None
                     | Inr (tps, offset3) \<Rightarrow> Some offset3)))"

text \<open>
  The schema payload of the spec's concrete scenarios 3 and 4 (one name \<^verbatim>\<open>ob\<close>, one type
  \<^verbatim>\<open>int\<close> of size 4, one structure of type 0 with the field (0, 0)), little-endian, with
  the four bytes at the place of the \<^verbatim>\<open>TLEN\<close> tag as a parameter.
\<close>

definition scenario_payload :: "bytes \<Rightarrow> bytes" where
  "scenario_payload tlen_tag =
     bytes_of ''SDNANAME'' @ [1, 0, 0, 0] @ bytes_of ''ob'' @ [0] @ [0]
     @ bytes_of ''TYPE'' @ [1, 0, 0, 0] @ bytes_of ''int'' @ [0]
     @ tlen_tag @ [4, 0] @ [0, 0]
     @ bytes_of ''STRC'' @ [1, 0, 0, 0] @ [0, 0, 1, 0, 0, 0, 0, 0]"

definition scenario_index :: BlendIndex where
  "scenario_index =
     \<lparr>names = [bytes_of ''ob''], types = [(bytes_of ''int'', 4)],
      structures = [\<lparr>name = 0, fields' = [\<lparr>field_type = 0, field_name = 0\<rparr>]\<rparr>]\<rparr>"

section \<open>The schema grammar as an encoder\<close>

text \<open>
  The loader has no writer. To state the round trip, the grammar of the schema payload
  (spec section 4.3) is written as an encoder: the tag \<^verbatim>\<open>SDNANAME\<close>, the count and the
  null-terminated names, padding to a multiple of 4, then the sections \<^verbatim>\<open>TYPE\<close>,
  \<^verbatim>\<open>TLEN\<close> and \<^verbatim>\<open>STRC\<close>. Integers are written in two's complement in the byte
  order of the file; the padding bytes have the value \<open>fill\<close>.
\<close>

definition short_range :: "int \<Rightarrow> bool" where
  "short_range v = (- 32768 \<le> v \<and> v < 32768)"

fun le_bytes :: "nat \<Rightarrow> int \<Rightarrow> bytes" where
  "le_bytes 0 v = []"
| "le_bytes (Suc n) v = word_of_int v # le_bytes n (v div 256)"

definition pack_int :: "Endian \<Rightarrow> nat \<Rightarrow> int \<Rightarrow> bytes" where
  "pack_int e n v = (case e of Little \<Rightarrow> le_bytes n v | Big \<Rightarrow> rev (le_bytes n v))"

definition padding :: "nat \<Rightarrow> nat" where
  "padding n = (4 - n mod 4) mod 4"

definition pad4 :: "byte \<Rightarrow> bytes \<Rightarrow> bytes" where
  "pad4 fill xs = xs @ replicate (padding (length xs)) fill"

definition encode_strings :: "bytes list \<Rightarrow> bytes" where
  "encode_strings ss = concat (map (\<lambda>s. s @ [0]) ss)"

definition encode_field :: "Endian \<Rightarrow> StructField \<Rightarrow> bytes" where
  "encode_field e f = pack_int e 2 (field_type f) @ pack_int e 2 (field_name f)"

definition encode_structure :: "Endian \<Rightarrow> BlendStructRef \<Rightarrow> bytes" where
  "encode_structure e s =
     pack_int e 2 (name s) @ pack_int e 2 (int (length (fields' s)))
     @ concat (map (encode_field e) (fields' s))"

definition encode_index :: "Endian \<Rightarrow> byte \<Rightarrow> BlendIndex \<Rightarrow> bytes" where
  "encode_index e fill idx =
     (let s1 = pad4 fill (bytes_of ''SDNANAME'' @ pack_int e 4 (int (length (names idx)))
                          @ encode_strings (names idx));
          s2 = pad4 fill (s1 @ bytes_of ''TYPE'' @ pack_int e 4 (int (length (types idx)))
                          @ encode_strings (map fst (types idx)));
          s3 = pad4 fill (s2 @ bytes_of ''TLEN''
                          @ concat (map (\<lambda>t. pack_int e 2 (snd t)) (types idx)))
      in s3 @ bytes_of ''STRC'' @ pack_int e 4 (int (length (structures idx)))
         @ concat (map (encode_structure e) (structures idx)))"

text \<open>
  The schemas the grammar can hold: no null byte inside a name, counts that fit the signed
  32-bit count fields, sizes, indices and field counts that fit the signed 16-bit fields.
\<close>

definition encodable :: "BlendIndex \<Rightarrow> bool" where
  "encodable idx =
     ((\<forall>n \<in> set (names idx). 0 \<notin> set n)
      \<and> (\<forall>t \<in> set (types idx). 0 \<notin> set (fst t) \<and> short_range (snd t))
      \<and> length (names idx) < 2 ^ 31
      \<and> length (types idx) < 2 ^ 31
      \<and> length (structures idx) < 2 ^ 31
      \<and> (\<forall>s \<in> set (structures idx).
            short_range (name s) \<and> length (fields' s) < 2 ^ 15
          \<and> (\<forall>f \<in> set (fields' s). short_range (field_type f) \<and> short_range (field_name f))))"


text \<open>
  The spec's invariant "no dangling indices": every structure's type index and every
  field's type index is a position in \<open>types\<close> (at least 0 and below the number of types),
  every field's name index a position in \<open>names\<close>.
\<close>

definition indices_in_range :: "BlendIndex \<Rightarrow> bool" where
  "indices_in_range idx =
     (\<forall>s \<in> set (structures idx).
         0 \<le> name s \<and> name s < int (length (types idx))
       \<and> (\<forall>f \<in> set (fields' s).
             0 \<le> field_type f \<and> field_type f < int (length (types idx))
           \<and> 0 \<le> field_name f \<and> field_name f < int (length (names idx))))"

text \<open>
  Where the structures lie in the payload: structure \<open>k\<close> starts at \<open>struct_offset p ss k\<close>
  when the first one starts at \<open>p\<close>, each taking 4 bytes and 4 bytes per field. A structure
  is stored at \<open>p\<close> when its type index is the \<^verbatim>\<open>Short\<close> at \<open>p\<close>, the number of its fields
  the \<^verbatim>\<open>Short\<close> at \<open>p + 2\<close> (none when that is negative), and the type and the name of its
  field \<open>j\<close> the two \<^verbatim>\<open>Short\<close>s at \<open>p + 4 + 4 * j\<close>. A list of structures is stored in a
  payload when their number is the \<^verbatim>\<open>Int\<close> after the \<^verbatim>\<open>STRC\<close> tag and each is stored at
  its place after it.
\<close>

fun struct_offset :: "int \<Rightarrow> BlendStructRef list \<Rightarrow> nat \<Rightarrow> int" where
  "struct_offset p [] k = p"
| "struct_offset p (s # ss) 0 = p"
| "struct_offset p (s # ss) (Suc k) = struct_offset (p + 4 + 4 * int (length (fields' s))) ss k"

definition stored_structure :: "Endian \<Rightarrow> bytes \<Rightarrow> int \<Rightarrow> BlendStructRef \<Rightarrow> bool" where
  "stored_structure e data p s =
     (Short_unpack_from e data p = Inr (name s)
      \<and> (case Short_unpack_from e data (p + 2) of
            Inl err \<Rightarrow> False
          | Inr field_count \<Rightarrow> length (fields' s) = nat field_count)
      \<and> (\<forall>j \<in> {..<length (fields' s)}.
            Short_unpack_from e data (p + 4 + 4 * int j) = Inr (field_type (fields' s ! j))
          \<and> Short_unpack_from e data (p + 4 + 4 * int j + 2)
              = Inr (field_name (fields' s ! j))))"

definition stored_structures :: "Endian \<Rightarrow> bytes \<Rightarrow> BlendStructRef list \<Rightarrow> bool" where
  "stored_structures e data ss =
     (case STRC_offset e data of
        None \<Rightarrow> False
      | Some offset \<Rightarrow>
          (case Int_unpack_from e data (offset + 4) of
             Inl err \<Rightarrow> False
           | Inr structure_count \<Rightarrow> length ss = nat structure_count)
          \<and> (\<forall>k \<in> {..<length ss}.
                stored_structure e data (struct_offset (offset + 8) ss k) (ss ! k)))"

text \<open>
  The scenario payload with a structure of type 7 whose field has type 9 and name 5, while
  there is one type and one name.
\<close>

definition dangling_payload :: bytes where
  "dangling_payload =
     bytes_of ''SDNANAME'' @ [1, 0, 0, 0] @ bytes_of ''ob'' @ [0] @ [0]
     @ bytes_of ''TYPE'' @ [1, 0, 0, 0] @ bytes_of ''int'' @ [0]
     @ bytes_of ''TLEN'' @ [4, 0] @ [0, 0]
     @ bytes_of ''STRC'' @ [1, 0, 0, 0] @ [7, 0, 1, 0, 9, 0, 5, 0]"

definition dangling_index :: BlendIndex where
  "dangling_index =
     \<lparr>names = [bytes_of ''ob''], types = [(bytes_of ''int'', 4)],
      structures = [\<lparr>name = 7, fields' = [\<lparr>field_type = 9, field_name = 5\<rparr>]\<rparr>]\<rparr>"

section \<open>Block scanner\<close>

text \<open>
  The file object \<^verbatim>\<open>self.handle\<close>, opened for reading in binary mode: the content of
  the file and the current position. \<^verbatim>\<open>read(size)\<close> returns at most \<open>size\<close> bytes from
  the position and advances by what it returned; the size -1 reads to the end, and a size
  below -1 raises \<^verbatim>\<open>ValueError\<close> (the file is opened with \<^verbatim>\<open>open(..., 'rb')\<close>, a buffered
  reader).
  \<^verbatim>\<open>seek(offset, 0)\<close> sets the position, \<^verbatim>\<open>seek(0, 1)\<close> returns it and
  \<^verbatim>\<open>seek(0, 2)\<close> moves to the end and returns the size of the file.
\<close>

record handle =
  content :: bytes
  pos :: nat

definition handle_read :: "handle \<Rightarrow> int \<Rightarrow> error + (bytes \<times> handle)" where
  "handle_read h n =
     (if n < - 1 then Inl ValueError
      else
        let rest = drop (pos h) (content h);
            buf = (if n = - 1 then rest else take (nat n) rest)
        in Inr (buf, h\<lparr>pos := pos h + length buf\<rparr>))"

definition handle_seek :: "handle \<Rightarrow> nat \<Rightarrow> handle" where
  "handle_seek h offset = h\<lparr>pos := offset\<rparr>"

definition handle_tell :: "handle \<Rightarrow> nat" where
  "handle_tell h = pos h"

definition handle_seek_end :: "handle \<Rightarrow> nat \<times> handle" where
  "handle_seek_end h = (length (content h), h\<lparr>pos := length (content h)\<rparr>)"

text \<open>
  The \<^verbatim>\<open>NamedStruct\<close> \<^verbatim>\<open>BlendBlockHeader\<close>, format \<^verbatim>\<open>4siPii\<close> with \<^verbatim>\<open>P\<close> replaced
  by \<^verbatim>\<open>I\<close> (32-bit files) or \<^verbatim>\<open>Q\<close> (64-bit files): a 4-byte code, a signed size, an
  unsigned address and two signed integers. The field \<^verbatim>\<open>size\<close> is \<open>size'\<close> here.
\<close>

record BlendBlockHeader =
  code :: bytes
  size' :: int
  addr :: int
  sdna :: int
  count :: int

definition pointer_size :: "Arch \<Rightarrow> nat" where
  "pointer_size a = (case a of X32 \<Rightarrow> 4 | X64 \<Rightarrow> 8)"

definition BlendBlockHeader_size :: "BlendFileInfo \<Rightarrow> nat" where
  "BlendBlockHeader_size info = 4 + 4 + pointer_size (arch info) + 4 + 4"

definition BlendBlockHeader_unpack :: "BlendFileInfo \<Rightarrow> bytes \<Rightarrow> error + BlendBlockHeader" where
  "BlendBlockHeader_unpack info buf =
     (case struct_unpack (BlendBlockHeader_size info) buf of
        Inl err \<Rightarrow> Inl err
      | Inr bs \<Rightarrow>
          let e = endian info; p = pointer_size (arch info) in
          Inr \<lparr>code = take 4 bs,
               size' = signed_of e (take 4 (drop 4 bs)),
               addr = unsigned_of e (take p (drop 8 bs)),
               sdna = signed_of e (take 4 (drop (8 + p) bs)),
               count = signed_of e (take 4 (drop (12 + p) bs))\<rparr>)"

text \<open>
  \<^verbatim>\<open>_parse_index(head, data_offset)\<close> on the file: the payload is read from the handle,
  decoded, and the handle is put back at \<open>data_offset\<close>.
\<close>

definition parse_index ::
  "BlendFileInfo \<Rightarrow> handle \<Rightarrow> BlendBlockHeader \<Rightarrow> nat \<Rightarrow> error + (BlendIndex \<times> handle)" where
  "parse_index info h head data_offset =
     (case handle_read h (size' head) of
        Inl err \<Rightarrow> Inl err
      | Inr (data, h1) \<Rightarrow>
          (case parse_index_data (endian info) data of
             Inl err \<Rightarrow> Inl err
           | Inr idx \<Rightarrow> Inr (idx, handle_seek h1 data_offset)))"

text \<open>
  The local variables of \<^verbatim>\<open>_parse_blocks\<close> that its loop changes, with the handle.
\<close>

record scan_state =
  file_handle :: handle
  blend_index :: "BlendIndex option"
  end_found :: bool
  file_block_heads :: "(BlendBlockHeader \<times> nat) list"

text \<open>One run of the body of the \<^verbatim>\<open>while\<close> loop of \<^verbatim>\<open>_parse_blocks\<close>.\<close>

definition scan_step :: "BlendFileInfo \<Rightarrow> scan_state \<Rightarrow> error + scan_state" where
  "scan_step info st =
     (case handle_read (file_handle st) (int (BlendBlockHeader_size info)) of
        Inl err \<Rightarrow> Inl err
      | Inr (buf, h1) \<Rightarrow>
          (case BlendBlockHeader_unpack info buf of
             Inl err \<Rightarrow> Inl err
           | Inr file_block_head \<Rightarrow>
               (case
                  (if code file_block_head = bytes_of ''DNA1'' then
                     (case parse_index info h1 file_block_head (handle_tell h1) of
                        Inl err \<Rightarrow> Inl err
                      | Inr (idx, h2) \<Rightarrow>
                          Inr (st\<lparr>file_handle := h2, blend_index := Some idx\<rparr>))
                   else if code file_block_head = bytes_of ''ENDB'' then
                     Inr (st\<lparr>file_handle := h1, end_found := True\<rparr>)
                   else
                     Inr (st\<lparr>file_handle := h1,
                             file_block_heads :=
                               file_block_heads st @ [(file_block_head, handle_tell h1)]\<rparr>))
                of
                  Inl err \<Rightarrow> Inl err
                | Inr st' \<Rightarrow>
                    (case handle_read (file_handle st') (size' file_block_head) of
                       Inl err \<Rightarrow> Inl err
                     | Inr (skipped, h3) \<Rightarrow> Inr (st'\<lparr>file_handle := h3\<rparr>)))))"

lemma handle_read_Inr:
  assumes "handle_read h n = Inr (buf, h')"
  shows "content h' = content h" and "pos h' = pos h + length buf"
    and "length buf \<le> length (content h) - pos h" and "- 1 \<le> n"
    and "buf = (if n = - 1 then drop (pos h) (content h)
                else take (nat n) (drop (pos h) (content h)))"
  using assms by (auto simp add: handle_read_def Let_def split: if_splits)

lemma handle_read_nat:
  "handle_read h (int n)
     = Inr (take n (drop (pos h) (content h)),
            h\<lparr>pos := pos h + length (take n (drop (pos h) (content h)))\<rparr>)"
  by (simp add: handle_read_def Let_def)

lemma BlendBlockHeader_unpack_Inr:
  "BlendBlockHeader_unpack info buf = Inr bh \<Longrightarrow> length buf = BlendBlockHeader_size info"
  by (simp add: BlendBlockHeader_unpack_def struct_unpack_def split: if_splits)

lemma BlendBlockHeader_size_pos: "0 < BlendBlockHeader_size info"
  by (simp add: BlendBlockHeader_size_def)

lemma parse_index_handle:
  "parse_index info h head off = Inr (idx, h') \<Longrightarrow> content h' = content h \<and> pos h' = off"
proof -
  assume "parse_index info h head off = Inr (idx, h')"
  then obtain data h1 where r: "handle_read h (size' head) = Inr (data, h1)"
    and h': "h' = handle_seek h1 off"
    by (auto simp add: parse_index_def split: sum.splits)
  show ?thesis
    using handle_read_Inr(1) [OF r] by (simp add: h' handle_seek_def)
qed

lemma scan_step_progress:
  assumes "scan_step info st = Inr st'"
  shows "content (file_handle st') = content (file_handle st)
       \<and> pos (file_handle st) < pos (file_handle st')
       \<and> pos (file_handle st') \<le> length (content (file_handle st))"
proof -
  let ?hs = "BlendBlockHeader_size info"
  from assms obtain buf h1 head where
    r: "handle_read (file_handle st) (int ?hs) = Inr (buf, h1)"
    and u: "BlendBlockHeader_unpack info buf = Inr head"
    by (auto simp add: scan_step_def split: sum.splits)
  have len: "length buf = ?hs"
    using u by (rule BlendBlockHeader_unpack_Inr)
  have c1: "content h1 = content (file_handle st)"
    using r by (rule handle_read_Inr(1))
  have p1: "pos h1 = pos (file_handle st) + ?hs"
    using handle_read_Inr(2) [OF r] len by simp
  have b1: "pos h1 \<le> length (content h1)"
    using handle_read_Inr(3) [OF r] len p1 c1 BlendBlockHeader_size_pos [of info]
    by simp
  from assms r u obtain h2 skipped h3 where
    r3: "handle_read h2 (size' head) = Inr (skipped, h3)"
    and st': "file_handle st' = h3"
    and h2: "content h2 = content h1 \<and> pos h2 = pos h1"
    by (auto simp add: scan_step_def handle_tell_def split: sum.splits if_splits
        dest: parse_index_handle)
  have "pos h2 \<le> pos h3"
    using handle_read_Inr(2) [OF r3] by simp
  moreover have "pos h3 \<le> length (content h2)"
    using handle_read_Inr(2) [OF r3] handle_read_Inr(3) [OF r3] b1 h2 by simp
  moreover have "content h3 = content h2"
    using r3 by (rule handle_read_Inr(1))
  ultimately show ?thesis
    using h2 c1 p1 BlendBlockHeader_size_pos [of info]
    by (simp add: st')
qed

text \<open>
  The \<^verbatim>\<open>while\<close> loop of \<^verbatim>\<open>_parse_blocks\<close>; \<open>end\<close> is the size of the file. Every
  run of the body that does not raise moves the handle forward by at least one block
  header and never past the end of the file, so the loop ends.
\<close>

function scan_loop :: "BlendFileInfo \<Rightarrow> nat \<Rightarrow> scan_state \<Rightarrow> error + scan_state" where
  "scan_loop info end st =
     (if end \<noteq> handle_tell (file_handle st) \<and> \<not> end_found st then
        (case scan_step info st of
           Inl err \<Rightarrow> Inl err
         | Inr st' \<Rightarrow> scan_loop info end st')
      else Inr st)"
  by pat_completeness auto
termination
proof (relation "measure (\<lambda>(info, end, st). length (content (file_handle st)) - pos (file_handle st))")
  show "wf (measure (\<lambda>(info, end, st). length (content (file_handle st)) - pos (file_handle st)))"
    by simp
next
  fix info :: BlendFileInfo and "end" :: nat and st st' :: scan_state
  assume "scan_step info st = Inr st'"
  then have c: "content (file_handle st') = content (file_handle st)"
    and p: "pos (file_handle st) < pos (file_handle st')"
    and b: "pos (file_handle st') \<le> length (content (file_handle st))"
    using scan_step_progress [of info st st'] by simp_all
  have "length (content (file_handle st)) - pos (file_handle st')
      < length (content (file_handle st)) - pos (file_handle st)"
    using p b by arith
  then show "((info, end, st'), (info, end, st))
      \<in> measure (\<lambda>(info, end, st). length (content (file_handle st)) - pos (file_handle st))"
    by (simp add: c)
qed

declare scan_loop.simps [simp del]

text \<open>\<^verbatim>\<open>_parse_blocks\<close>: the loop from position 12, then the two checks.\<close>

definition parse_blocks ::
  "BlendFileInfo \<Rightarrow> handle \<Rightarrow> error + ((BlendBlockHeader \<times> nat) list \<times> BlendIndex)" where
  "parse_blocks info handle0 =
     (let (end, h1) = handle_seek_end handle0;
          h2 = handle_seek h1 12
      in
        case scan_loop info end
               \<lparr>file_handle = h2, blend_index = None, end_found = False, file_block_heads = []\<rparr>
        of
          Inl err \<Rightarrow> Inl err
        | Inr st \<Rightarrow>
            (case blend_index st of
               None \<Rightarrow> Inl MissingIndex
             | Some idx \<Rightarrow>
                 if end_found st = False then Inl MissingTerminator
                 else Inr (file_block_heads st, idx)))"

text \<open>
  \<^verbatim>\<open>BlenderFile.__init__\<close> on the content of the opened file: the attributes
  \<^verbatim>\<open>header\<close>, \<^verbatim>\<open>blocks\<close> and \<^verbatim>\<open>index\<close> of the new object.
\<close>

record BlenderFile =
  header :: BlendFileInfo
  blocks :: "(BlendBlockHeader \<times> nat) list"
  index :: BlendIndex

definition BlenderFile_init :: "bytes \<Rightarrow> error + BlenderFile" where
  "BlenderFile_init file_content =
     (case handle_read \<lparr>content = file_content, pos = 0\<rparr> 12 of
        Inl err \<Rightarrow> Inl err
      | Inr (buf, h) \<Rightarrow>
          (case decode_header buf of
             Inl err \<Rightarrow> Inl err
           | Inr info \<Rightarrow>
               (case parse_blocks info h of
                  Inl err \<Rightarrow> Inl err
                | Inr (blks, idx) \<Rightarrow>
                    Inr \<lparr>header = info, blocks = blks, index = idx\<rparr>)))"

text \<open>
  The position of the handle after \<^verbatim>\<open>read(n)\<close> from \<open>offset\<close>: the end of a payload of
  \<open>n\<close> bytes that starts at \<open>offset\<close>, the end of the file when the payload reaches past it
  or \<open>n\<close> is -1, and no position when \<open>n\<close> is below -1 (the read raises).
\<close>

definition payload_end :: "bytes \<Rightarrow> nat \<Rightarrow> int \<Rightarrow> nat option" where
  "payload_end file offset n =
     (case handle_read \<lparr>content = file, pos = offset\<rparr> n of
        Inl err \<Rightarrow> None
      | Inr (buf, h) \<Rightarrow> Some (pos h))"

lemma payload_end_ge: "payload_end file offset n = Some q \<Longrightarrow> offset \<le> q"
  by (auto simp add: payload_end_def split: sum.splits dest: handle_read_Inr(2))

lemma payload_end_le:
  "payload_end file offset n = Some q \<Longrightarrow> offset \<le> length file \<Longrightarrow> q \<le> length file"
proof -
  assume "payload_end file offset n = Some q" and o: "offset \<le> length file"
  then obtain buf h where r: "handle_read \<lparr>content = file, pos = offset\<rparr> n = Inr (buf, h)"
    and q: "q = pos h"
    by (auto simp add: payload_end_def split: sum.splits)
  show ?thesis
    using handle_read_Inr(2) [OF r] handle_read_Inr(3) [OF r] o q by simp
qed

lemma header_fits:
  "BlendBlockHeader_unpack info (take (BlendBlockHeader_size info) (drop p file)) = Inr head
     \<Longrightarrow> p + BlendBlockHeader_size info \<le> length file"
  using BlendBlockHeader_size_pos [of info]
  by (auto dest!: BlendBlockHeader_unpack_Inr simp add: min_def split: if_splits)

text \<open>
  The blocks of a file as they lie on disk from position \<open>p\<close> (spec section 6: each block
  is a header followed by its payload): the header decoded at \<open>p\<close>, paired with the offset
  of its payload, then the blocks after the end of that payload. The sequence ends where no
  complete header is left, and after a block whose size field is below -1, which has no
  payload end. It does not depend on the codes of the blocks.
\<close>

function stream_blocks :: "BlendFileInfo \<Rightarrow> bytes \<Rightarrow> nat \<Rightarrow> (BlendBlockHeader \<times> nat) list" where
  "stream_blocks info file p =
     (case BlendBlockHeader_unpack info (take (BlendBlockHeader_size info) (drop p file)) of
        Inl err \<Rightarrow> []
      | Inr head \<Rightarrow>
          (head, p + BlendBlockHeader_size info)
          # (case payload_end file (p + BlendBlockHeader_size info) (size' head) of
               None \<Rightarrow> []
             | Some q \<Rightarrow> stream_blocks info file q))"
  by pat_completeness auto
termination
proof (relation "measure (\<lambda>(info, file, p). length file - p)")
  show "wf (measure (\<lambda>(info, file, p). length file - p))"
    by simp
next
  fix info :: BlendFileInfo and "file" :: bytes and p q :: nat and head :: BlendBlockHeader
  assume u: "BlendBlockHeader_unpack info (take (BlendBlockHeader_size info) (drop p file))
    = Inr head"
    and e: "payload_end file (p + BlendBlockHeader_size info) (size' head) = Some q"
  have f: "p + BlendBlockHeader_size info \<le> length file"
    using u by (rule header_fits)
  have "p < q"
    using payload_end_ge [OF e] BlendBlockHeader_size_pos [of info] by simp
  moreover have "q \<le> length file"
    using e f by (rule payload_end_le)
  ultimately have "length file - q < length file - p"
    by arith
  then show "((info, file, q), (info, file, p)) \<in> measure (\<lambda>(info, file, p). length file - p)"
    by simp
qed

declare stream_blocks.simps [simp del]

text \<open>The schema block and the terminator block, by their codes.\<close>

definition is_index_block :: "BlendBlockHeader \<times> nat \<Rightarrow> bool" where
  "is_index_block b = (code (fst b) = bytes_of ''DNA1'')"

definition is_end_block :: "BlendBlockHeader \<times> nat \<Rightarrow> bool" where
  "is_end_block b = (code (fst b) = bytes_of ''ENDB'')"

text \<open>
  The files of the spec's concrete scenarios 3, 5 and 6, for a 32-bit little-endian file:
  one data block with a payload of 3 bytes, the schema block with the scenario payload, and
  the terminator; the same without the terminator; and a terminator alone.
\<close>

definition scenario_info :: BlendFileInfo where
  "scenario_info = \<lparr>version = \<lparr>major = 2, minor = 8, rev' = 0\<rparr>, arch = X32, endian = Little\<rparr>"

definition data_block :: bytes where
  "data_block = bytes_of ''DATA'' @ [3, 0, 0, 0] @ [0, 0, 0, 0] @ [0, 0, 0, 0] @ [1, 0, 0, 0]
     @ [7, 7, 7]"

definition schema_block :: bytes where
  "schema_block = bytes_of ''DNA1'' @ [52, 0, 0, 0] @ [0, 0, 0, 0] @ [0, 0, 0, 0] @ [1, 0, 0, 0]
     @ scenario_payload (bytes_of ''TLEN'')"

definition end_block :: bytes where
  "end_block = bytes_of ''ENDB'' @ [0, 0, 0, 0] @ [0, 0, 0, 0] @ [0, 0, 0, 0] @ [0, 0, 0, 0]"

definition scenario_file :: bytes where
  "scenario_file = bytes_of ''BLENDER_v280'' @ data_block @ schema_block @ end_block"

definition truncated_file :: bytes where
  "truncated_file = bytes_of ''BLENDER_v280'' @ data_block @ schema_block"

definition no_index_file :: bytes where
  "no_index_file = bytes_of ''BLENDER_v280'' @ end_block"

text \<open>
  Two more files: one that ends four bytes into the header of its second block, and one
  whose data block has the size field -2.
\<close>

definition cut_file :: bytes where
  "cut_file = bytes_of ''BLENDER_v280'' @ data_block @ bytes_of ''DNA1''"

definition negative_size_file :: bytes where
  "negative_size_file = bytes_of ''BLENDER_v280''
     @ bytes_of ''DATA'' @ [254, 255, 255, 255] @ [0, 0, 0, 0] @ [0, 0, 0, 0] @ [1, 0, 0, 0]
     @ end_block"

definition data_header :: BlendBlockHeader where
  "data_header = \<lparr>code = bytes_of ''DATA'', size' = 3, addr = 0, sdna = 0, count = 1\<rparr>"

section \<open>Properties of the header decoder\<close>

lemma VersionInfo_of_3:
  "length l = 3 \<Longrightarrow> VersionInfo_of l = Inr \<lparr>major = l ! 0, minor = l ! 1, rev' = l ! 2\<rparr>"
proof -
  assume len: "length l = 3"
  then obtain a b c where l: "l = [a, b, c]"
    by (cases l; simp; rename_tac x xs; case_tac xs; simp; rename_tac y ys; case_tac ys; simp)
  show ?thesis by (simp add: l)
qed

lemma take1_drop_eq:
  "n < length xs \<Longrightarrow> take 1 (drop n xs) = [xs ! n]"
  by (metis Cons_nth_drop_Suc take0 take_Suc_Cons One_nat_def)

lemma drop9_of_12:
  assumes "length (h::'a list) = 12"
  shows "drop 9 h = [h ! 9, h ! 10, h ! 11]"
proof -
  have "drop 9 h = h ! 9 # drop 10 h" using assms by (simp add: Cons_nth_drop_Suc [symmetric])
  also have "drop 10 h = h ! 10 # drop 11 h" using assms by (simp add: Cons_nth_drop_Suc [symmetric])
  also have "drop 11 h = h ! 11 # drop 12 h" using assms by (simp add: Cons_nth_drop_Suc [symmetric])
  finally show ?thesis using assms by simp
qed

lemma parse_header_unfold:
  assumes len: "length h = 12"
  shows "parse_header h =
     (if take 7 h \<noteq> bytes_of ''BLENDER'' then Inr None
      else if h ! 7 \<noteq> of_char CHR ''-'' \<and> h ! 7 \<noteq> of_char CHR ''_'' then Inr None
      else if h ! 8 \<noteq> of_char CHR ''v'' \<and> h ! 8 \<noteq> of_char CHR ''V'' then Inr None
      else Inr (Some \<lparr>version = \<lparr>major = uint (h ! 9) - 48, minor = uint (h ! 10) - 48,
                                  rev' = uint (h ! 11) - 48\<rparr>,
                       arch = (if h ! 7 = of_char CHR ''-'' then X64 else X32),
                       endian = (if h ! 8 = of_char CHR ''v'' then Little else Big)\<rparr>))"
proof -
  have a: "take 1 (drop 7 h) = [h ! 7]"
    by (rule take1_drop_eq) (simp add: len)
  have b: "take 1 (drop 8 h) = [h ! 8]"
    by (rule take1_drop_eq) (simp add: len)
  have c: "drop 9 h = [h ! 9, h ! 10, h ! 11]"
    using len by (rule drop9_of_12)
  show ?thesis
    unfolding parse_header_def Let_def a b c
    by (simp add: len bytes_of_def)
qed

text \<open>
  Claim C7. The header \<^verbatim>\<open>b"BLENDER-v280"\<close> decodes to version (2,8,0), 64-bit
  pointers, little-endian; \<^verbatim>\<open>b"BLENDER_V279"\<close> decodes to version (2,7,9), 32-bit
  pointers, big-endian.
\<close>

theorem parse_header_scenarios:
  "parse_header (bytes_of ''BLENDER-v280'') =
     Inr (Some \<lparr>version = \<lparr>major = 2, minor = 8, rev' = 0\<rparr>, arch = X64, endian = Little\<rparr>)
   \<and> decode_header (bytes_of ''BLENDER-v280'') =
     Inr \<lparr>version = \<lparr>major = 2, minor = 8, rev' = 0\<rparr>, arch = X64, endian = Little\<rparr>
   \<and> parse_header (bytes_of ''BLENDER_V279'') =
     Inr (Some \<lparr>version = \<lparr>major = 2, minor = 7, rev' = 9\<rparr>, arch = X32, endian = Big\<rparr>)
   \<and> decode_header (bytes_of ''BLENDER_V279'') =
     Inr \<lparr>version = \<lparr>major = 2, minor = 7, rev' = 9\<rparr>, arch = X32, endian = Big\<rparr>"
  by (simp add: parse_header_def decode_header_def bytes_of_def)

theorem parse_header_scenarios_witness:
  "(\<exists>info. parse_header (bytes_of ''BLENDER-v280'') = Inr (Some info)
      \<and> arch info = X64 \<and> endian info = Little \<and> major (version info) = 2)
   \<and> (\<exists>info. decode_header (bytes_of ''BLENDER_V279'') = Inr info
      \<and> arch info = X32 \<and> endian info = Big \<and> rev' (version info) = 9)"
  using parse_header_scenarios by simp

text \<open>
  Claim C8. The header check fails with \<open>MalformedHeader\<close> exactly for the inputs whose
  length is not 12, or whose first 7 bytes are not the tag \<^verbatim>\<open>BLENDER\<close>, or whose byte 7
  is neither \<^verbatim>\<open>-\<close> nor \<^verbatim>\<open>_\<close>, or whose byte 8 is neither \<^verbatim>\<open>v\<close> nor
  \<^verbatim>\<open>V\<close>; on every other input it succeeds and returns the file facts.
\<close>

theorem decode_header_fails_iff:
  "(decode_header h = Inl MalformedHeader \<longleftrightarrow>
      (length h \<noteq> 12 \<or> take 7 h \<noteq> bytes_of ''BLENDER''
       \<or> h ! 7 \<notin> {of_char CHR ''-'', of_char CHR ''_''}
       \<or> h ! 8 \<notin> {of_char CHR ''v'', of_char CHR ''V''}))
   \<and> (decode_header h \<noteq> Inl MalformedHeader \<longrightarrow> (\<exists>info. decode_header h = Inr info))"
proof (cases "length h = 12")
  case True
  show ?thesis
    by (simp add: decode_header_def parse_header_unfold [OF True] True)
next
  case False
  then show ?thesis
    by (simp add: decode_header_def parse_header_def)
qed

theorem decode_header_fails_iff_witness:
  "decode_header (bytes_of ''BLENDER-v280'') \<noteq> Inl MalformedHeader
   \<and> (\<exists>info. decode_header (bytes_of ''BLENDER-v280'') = Inr info)
   \<and> decode_header (bytes_of ''BLENDER-x280'') = Inl MalformedHeader
   \<and> decode_header (bytes_of ''BLENDER-v28'') = Inl MalformedHeader"
  using decode_header_fails_iff [of "bytes_of ''BLENDER-v280''"]
    decode_header_fails_iff [of "bytes_of ''BLENDER-x280''"]
    decode_header_fails_iff [of "bytes_of ''BLENDER-v28''"]
  by (simp add: bytes_of_def)

text \<open>
  Claim C10. The header decoder is total and never raises: on every byte string it returns
  either a record or \<open>None\<close>. Bytes 9 to 11 are not checked to be digits: every 12-byte
  input with the right tag, arch byte and endian byte is accepted, and each version
  component is the raw byte value minus 48.
\<close>

theorem parse_header_total:
  "(\<exists>r. parse_header h = Inr r)
   \<and> (length h = 12 \<and> take 7 h = bytes_of ''BLENDER''
        \<and> h ! 7 \<in> {of_char CHR ''-'', of_char CHR ''_''}
        \<and> h ! 8 \<in> {of_char CHR ''v'', of_char CHR ''V''}
      \<longrightarrow> (\<exists>info. parse_header h = Inr (Some info)
             \<and> major (version info) = uint (h ! 9) - 48
             \<and> minor (version info) = uint (h ! 10) - 48
             \<and> rev' (version info) = uint (h ! 11) - 48))"
proof (cases "length h = 12")
  case True
  show ?thesis
    by (simp add: parse_header_unfold [OF True] True)
next
  case False
  then show ?thesis
    by (simp add: parse_header_def)
qed

theorem parse_header_total_witness:
  "\<exists>info. parse_header (bytes_of ''BLENDER-vz:/'') = Inr (Some info)
      \<and> major (version info) = 74 \<and> minor (version info) = 10 \<and> rev' (version info) = - 1"
  using parse_header_total [of "bytes_of ''BLENDER-vz:/''"]
  by (simp add: bytes_of_def)

section \<open>Properties of the schema decoder\<close>

lemma align_mod4: "align offset mod 4 = 0"
  unfolding align_def Let_def by presburger

lemma align_eq:
  "align offset = (if offset mod 4 \<noteq> 0 then offset + (4 - offset mod 4) else offset)"
  by (simp add: align_def Let_def)

lemma read_names_aligned: "read_names e data = Inr (nms, offset1) \<Longrightarrow> offset1 mod 4 = 0"
  by (auto simp add: read_names_def Let_def align_mod4 split: sum.splits)

lemma read_type_names_aligned:
  "read_type_names e data offset = Inr (tns, tc, offset2) \<Longrightarrow> offset2 mod 4 = 0"
  by (auto simp add: read_type_names_def Let_def align_mod4 split: sum.splits if_splits)

lemma read_type_sizes_aligned:
  "read_type_sizes e data tns tc offset = Inr (tps, offset3) \<Longrightarrow> offset3 mod 4 = 0"
  by (auto simp add: read_type_sizes_def Let_def align_mod4 split: sum.splits if_splits)

lemma scenario_ok:
  "parse_index_data Little (scenario_payload (bytes_of ''TLEN'')) =
     Inr scenario_index"
  by (simp add: scenario_index_def scenario_payload_def bytes_of_def parse_index_data_def read_names_def
      read_type_names_def read_type_sizes_def read_structures_def py_slice_def py_slice_from_def
      slice_index_def Int_unpack_from_def Short_unpack_from_def StructField_unpack_from_def
      Short_iter_unpack_def struct_unpack_from_def signed_of_def unsigned_of_def py_split_def
      align_def Let_def)


lemma parse_index_data_stages:
  assumes "parse_index_data e data = Inr idx"
  shows "\<exists>nms offset1 tns tc offset2 tps offset3 structs.
           py_slice data 0 8 = bytes_of ''SDNANAME''
         \<and> read_names e data = Inr (nms, offset1)
         \<and> read_type_names e data offset1 = Inr (tns, tc, offset2)
         \<and> read_type_sizes e data tns tc offset2 = Inr (tps, offset3)
         \<and> read_structures e data offset3 = Inr structs
         \<and> idx = \<lparr>names = nms, types = tps, structures = structs\<rparr>"
  using assms unfolding parse_index_data_def
  by (auto split: if_splits sum.splits)

text \<open>
  Claim C9. In every successful run of the schema decoder the running offset is a multiple
  of 4 after the names, after the type names and after the type lengths; \<open>align\<close> advances
  the offset by \<open>4 - offset mod 4\<close> exactly when \<open>offset mod 4\<close> is not zero.
\<close>

theorem alignment_invariant:
  "(parse_index_data e data = Inr idx \<longrightarrow>
      (\<exists>nms offset1 tns tc offset2 tps offset3.
          read_names e data = Inr (nms, offset1)
        \<and> read_type_names e data offset1 = Inr (tns, tc, offset2)
        \<and> read_type_sizes e data tns tc offset2 = Inr (tps, offset3)
        \<and> offset1 mod 4 = 0 \<and> offset2 mod 4 = 0 \<and> offset3 mod 4 = 0))
   \<and> align offset = (if offset mod 4 \<noteq> 0 then offset + (4 - offset mod 4) else offset)"
proof (intro conjI impI)
  assume "parse_index_data e data = Inr idx"
  then obtain nms offset1 tns tc offset2 tps offset3 where
    s: "read_names e data = Inr (nms, offset1)"
       "read_type_names e data offset1 = Inr (tns, tc, offset2)"
       "read_type_sizes e data tns tc offset2 = Inr (tps, offset3)"
    using parse_index_data_stages by blast
  show "\<exists>nms offset1 tns tc offset2 tps offset3.
          read_names e data = Inr (nms, offset1)
        \<and> read_type_names e data offset1 = Inr (tns, tc, offset2)
        \<and> read_type_sizes e data tns tc offset2 = Inr (tps, offset3)
        \<and> offset1 mod 4 = 0 \<and> offset2 mod 4 = 0 \<and> offset3 mod 4 = 0"
    using s read_names_aligned [OF s(1)] read_type_names_aligned [OF s(2)]
      read_type_sizes_aligned [OF s(3)]
    by simp
next
  show "align offset = (if offset mod 4 \<noteq> 0 then offset + (4 - offset mod 4) else offset)"
    by (rule align_eq)
qed

theorem alignment_invariant_witness:
  "(\<exists>nms offset1 tns tc offset2 tps offset3.
        read_names Little (scenario_payload (bytes_of ''TLEN'')) = Inr (nms, offset1)
      \<and> read_type_names Little (scenario_payload (bytes_of ''TLEN'')) offset1
          = Inr (tns, tc, offset2)
      \<and> read_type_sizes Little (scenario_payload (bytes_of ''TLEN'')) tns tc offset2
          = Inr (tps, offset3)
      \<and> offset1 mod 4 = 0 \<and> offset2 mod 4 = 0 \<and> offset3 mod 4 = 0)
   \<and> align 13 = 16"
  using alignment_invariant [of Little "scenario_payload (bytes_of ''TLEN'')" scenario_index 13]
    scenario_ok
  by simp

lemma struct_unpack_from_err: "struct_unpack_from sz buf offset = Inl err \<Longrightarrow> err = StructError"
  by (simp add: struct_unpack_from_def Let_def split: if_splits)

lemma Int_unpack_from_err: "Int_unpack_from e data offset = Inl err \<Longrightarrow> err = StructError"
  by (auto simp add: Int_unpack_from_def split: sum.splits dest: struct_unpack_from_err)

lemma Short_unpack_from_err: "Short_unpack_from e data offset = Inl err \<Longrightarrow> err = StructError"
  by (auto simp add: Short_unpack_from_def split: sum.splits dest: struct_unpack_from_err)

lemma StructField_unpack_from_err:
  "StructField_unpack_from e data offset = Inl err \<Longrightarrow> err = StructError"
  by (auto simp add: StructField_unpack_from_def split: sum.splits dest: struct_unpack_from_err)

lemma Short_iter_unpack_err: "Short_iter_unpack e data = Inl err \<Longrightarrow> err = StructError"
  by (simp add: Short_iter_unpack_def split: if_splits)

lemma read_fields_err: "read_fields e data n offset = Inl err \<Longrightarrow> err = StructError"
  by (induction n arbitrary: offset)
     (auto split: sum.splits dest: StructField_unpack_from_err)

lemma read_structs_err: "read_structs e data n offset = Inl err \<Longrightarrow> err = StructError"
  by (induction n arbitrary: offset)
     (auto split: sum.splits dest: Short_unpack_from_err read_fields_err)

lemma read_names_err: "read_names e data = Inl err \<Longrightarrow> err = StructError"
  by (auto simp add: read_names_def Let_def split: sum.splits dest: Int_unpack_from_err)

lemma read_type_names_Malformed:
  "read_type_names e data offset = Inl MalformedIndex
     \<longleftrightarrow> py_slice data offset (offset + 4) \<noteq> bytes_of ''TYPE''"
  by (auto simp add: read_type_names_def Let_def split: sum.splits dest: Int_unpack_from_err)

lemma read_type_sizes_Malformed:
  "read_type_sizes e data tns tc offset = Inl MalformedIndex
     \<longleftrightarrow> py_slice data offset (offset + 4) \<noteq> bytes_of ''TLEN''"
  by (auto simp add: read_type_sizes_def Let_def split: sum.splits dest: Short_iter_unpack_err)

lemma read_structures_Malformed:
  "read_structures e data offset = Inl MalformedIndex
     \<longleftrightarrow> py_slice data offset (offset + 4) \<noteq> bytes_of ''STRC''"
  by (auto simp add: read_structures_def Let_def split: sum.splits
      dest: Int_unpack_from_err read_structs_err)

lemma parse_index_data_Malformed:
  "parse_index_data e data = Inl MalformedIndex \<longleftrightarrow>
     (py_slice data 0 8 \<noteq> bytes_of ''SDNANAME''
      \<or> (\<exists>offset. TYPE_offset e data = Some offset
            \<and> py_slice data offset (offset + 4) \<noteq> bytes_of ''TYPE'')
      \<or> (\<exists>offset. TLEN_offset e data = Some offset
            \<and> py_slice data offset (offset + 4) \<noteq> bytes_of ''TLEN'')
      \<or> (\<exists>offset. STRC_offset e data = Some offset
            \<and> py_slice data offset (offset + 4) \<noteq> bytes_of ''STRC''))"
proof (cases "py_slice data 0 8 = bytes_of ''SDNANAME''")
  case False
  then show ?thesis by (simp add: parse_index_data_def)
next
  case sdna: True
  show ?thesis
  proof (cases "read_names e data")
    case (Inl err)
    then show ?thesis
      using read_names_err [OF Inl]
      by (simp add: parse_index_data_def TYPE_offset_def TLEN_offset_def STRC_offset_def sdna)
  next
    case (Inr r1)
    obtain nms offset1 where r1: "r1 = (nms, offset1)" by (cases r1)
    note names = Inr [unfolded r1]
    show ?thesis
    proof (cases "read_type_names e data offset1")
      case (Inl err)
      then show ?thesis
        using read_type_names_Malformed [of e data offset1]
        by (cases "err = MalformedIndex")
           (simp_all add: parse_index_data_def TYPE_offset_def TLEN_offset_def STRC_offset_def
              sdna names)
    next
      case (Inr r2)
      obtain tns tc offset2 where r2: "r2 = (tns, tc, offset2)" by (cases r2)
      note tnames = Inr [unfolded r2]
      have type_ok: "py_slice data offset1 (offset1 + 4) = bytes_of ''TYPE''"
        using read_type_names_Malformed [of e data offset1] tnames by simp
      show ?thesis
      proof (cases "read_type_sizes e data tns tc offset2")
        case (Inl err)
        then show ?thesis
          using read_type_sizes_Malformed [of e data tns tc offset2]
          by (cases "err = MalformedIndex")
             (simp_all add: parse_index_data_def TYPE_offset_def TLEN_offset_def STRC_offset_def
                sdna names tnames type_ok)
      next
        case (Inr r3)
        obtain tps offset3 where r3: "r3 = (tps, offset3)" by (cases r3)
        note sizes = Inr [unfolded r3]
        have tlen_ok: "py_slice data offset2 (offset2 + 4) = bytes_of ''TLEN''"
          using read_type_sizes_Malformed [of e data tns tc offset2] sizes by simp
        show ?thesis
          using read_structures_Malformed [of e data offset3]
          by (cases "read_structures e data offset3")
             (simp_all add: parse_index_data_def TYPE_offset_def TLEN_offset_def STRC_offset_def
                sdna names tnames sizes type_ok tlen_ok)
      qed
    qed
  qed
qed

lemma scenario_garbage:
  "[a, b, c, d] \<noteq> bytes_of ''TLEN'' \<Longrightarrow>
     parse_index_data Little (scenario_payload [a, b, c, d]) = Inl MalformedIndex"
  by (simp add: scenario_payload_def bytes_of_def parse_index_data_def read_names_def
      read_type_names_def read_type_sizes_def py_slice_def py_slice_from_def
      slice_index_def Int_unpack_from_def struct_unpack_from_def signed_of_def unsigned_of_def
      py_split_def align_def Let_def)

text \<open>
  Claim C5. The schema decoder fails with \<open>MalformedIndex\<close> if and only if one of the tags
  \<^verbatim>\<open>SDNANAME\<close> (at offset 0), \<^verbatim>\<open>TYPE\<close>, \<^verbatim>\<open>TLEN\<close>, \<^verbatim>\<open>STRC\<close> (each at the offset
  the run computes for it) does not match the payload there; the scenario payload with its
  \<^verbatim>\<open>TLEN\<close> tag replaced by any other four bytes fails with \<open>MalformedIndex\<close>.
\<close>

theorem malformed_index_iff:
  "(parse_index_data e data = Inl MalformedIndex \<longleftrightarrow>
     (py_slice data 0 8 \<noteq> bytes_of ''SDNANAME''
      \<or> (\<exists>offset. TYPE_offset e data = Some offset
            \<and> py_slice data offset (offset + 4) \<noteq> bytes_of ''TYPE'')
      \<or> (\<exists>offset. TLEN_offset e data = Some offset
            \<and> py_slice data offset (offset + 4) \<noteq> bytes_of ''TLEN'')
      \<or> (\<exists>offset. STRC_offset e data = Some offset
            \<and> py_slice data offset (offset + 4) \<noteq> bytes_of ''STRC'')))
   \<and> ([a, b, c, d] \<noteq> bytes_of ''TLEN'' \<longrightarrow>
        parse_index_data Little (scenario_payload [a, b, c, d]) = Inl MalformedIndex)"
  using parse_index_data_Malformed [of e data] scenario_garbage [of a b c d] by blast

theorem malformed_index_iff_witness:
  "parse_index_data Little (scenario_payload (bytes_of ''XXXX'')) = Inl MalformedIndex
   \<and> (\<exists>offset. TLEN_offset Little (scenario_payload (bytes_of ''XXXX'')) = Some offset
         \<and> py_slice (scenario_payload (bytes_of ''XXXX'')) offset (offset + 4) \<noteq> bytes_of ''TLEN'')"
proof -
  have t: "TYPE_offset Little (scenario_payload (bytes_of ''XXXX'')) = Some 16"
    by (simp add: TYPE_offset_def scenario_payload_def bytes_of_def read_names_def
        py_slice_def py_slice_from_def slice_index_def Int_unpack_from_def
        struct_unpack_from_def signed_of_def unsigned_of_def py_split_def align_def Let_def)
  have ty: "py_slice (scenario_payload (bytes_of ''XXXX'')) 16 20 = bytes_of ''TYPE''"
    by (simp add: scenario_payload_def bytes_of_def py_slice_def slice_index_def)
  have s: "STRC_offset Little (scenario_payload (bytes_of ''XXXX'')) = None"
    by (simp add: STRC_offset_def scenario_payload_def bytes_of_def read_names_def
        read_type_names_def read_type_sizes_def
        py_slice_def py_slice_from_def slice_index_def Int_unpack_from_def
        struct_unpack_from_def signed_of_def unsigned_of_def py_split_def align_def Let_def)
  have sd: "py_slice (scenario_payload (bytes_of ''XXXX'')) 0 8 = bytes_of ''SDNANAME''"
    by (simp add: scenario_payload_def bytes_of_def py_slice_def slice_index_def)
  have m: "parse_index_data Little (scenario_payload (bytes_of ''XXXX'')) = Inl MalformedIndex"
    using malformed_index_iff [of Little "scenario_payload (bytes_of ''XXXX'')" 88 88 88 88]
    by (simp add: bytes_of_def)
  show ?thesis
    using m malformed_index_iff [of Little "scenario_payload (bytes_of ''XXXX'')" 88 88 88 88]
    by (simp add: t ty s sd)
qed

section \<open>Decoded indices\<close>

lemma dangling_decodes:
  "parse_index_data Little dangling_payload = Inr dangling_index"
  by (simp add: dangling_index_def dangling_payload_def bytes_of_def parse_index_data_def read_names_def
      read_type_names_def read_type_sizes_def read_structures_def py_slice_def py_slice_from_def
      slice_index_def Int_unpack_from_def Short_unpack_from_def StructField_unpack_from_def
      Short_iter_unpack_def struct_unpack_from_def signed_of_def unsigned_of_def py_split_def
      align_def Let_def)

lemma le_uint_bounds: "0 \<le> le_uint bs \<and> le_uint bs < 256 ^ length bs"
proof (induction bs)
  case Nil
  show ?case by simp
next
  case (Cons b bs)
  have b: "0 \<le> uint b" "uint b < 256"
    using uint_lt2p [of b] by simp_all
  from Cons b show ?case by simp
qed

lemma unsigned_of_bounds: "0 \<le> unsigned_of e bs \<and> unsigned_of e bs < 256 ^ length bs"
  using le_uint_bounds [of bs] le_uint_bounds [of "rev bs"]
  by (cases e) (simp_all add: unsigned_of_def)

lemma signed_of_short: "length bs = 2 \<Longrightarrow> short_range (signed_of e bs)"
  using unsigned_of_bounds [of e bs]
  by (simp add: signed_of_def short_range_def Let_def)

lemma struct_unpack_from_length:
  "struct_unpack_from sz buf offset = Inr bs \<Longrightarrow> length bs = sz"
  by (auto simp add: struct_unpack_from_def Let_def split: if_splits)

lemma Short_unpack_from_short: "Short_unpack_from e data offset = Inr v \<Longrightarrow> short_range v"
  by (auto simp add: Short_unpack_from_def split: sum.splits
      dest!: struct_unpack_from_length intro: signed_of_short)

lemma StructField_unpack_from_short:
  "StructField_unpack_from e data offset = Inr f
     \<Longrightarrow> short_range (field_type f) \<and> short_range (field_name f)"
  by (auto simp add: StructField_unpack_from_def split: sum.splits
      dest!: struct_unpack_from_length intro!: signed_of_short)

lemma read_fields_short:
  "read_fields e data n offset = Inr (fs, offset')
     \<Longrightarrow> \<forall>f \<in> set fs. short_range (field_type f) \<and> short_range (field_name f)"
proof (induction n arbitrary: offset fs)
  case 0
  then show ?case by simp
next
  case (Suc n)
  then show ?case
    by (auto split: sum.splits dest: StructField_unpack_from_short)
qed

lemma read_structs_short:
  "read_structs e data n offset = Inr (ss, offset')
     \<Longrightarrow> \<forall>s \<in> set ss. short_range (name s)
            \<and> (\<forall>f \<in> set (fields' s). short_range (field_type f) \<and> short_range (field_name f))"
proof (induction n arbitrary: offset ss)
  case 0
  then show ?case by simp
next
  case (Suc n)
  from Suc.prems obtain ti fc fs off1 ss' where
    a: "Short_unpack_from e data offset = Inr ti"
    and c: "read_fields e data (nat fc) (offset + 4) = Inr (fs, off1)"
    and d: "read_structs e data n off1 = Inr (ss', offset')"
    and s: "ss = \<lparr>name = ti, fields' = fs\<rparr> # ss'"
    by (auto split: sum.splits)
  show ?case
    using Short_unpack_from_short [OF a] read_fields_short [OF c] Suc.IH [OF d]
    by (simp add: s)
qed

lemma parse_index_data_short:
  assumes "parse_index_data e data = Inr idx"
  shows "\<forall>s \<in> set (structures idx). short_range (name s)
            \<and> (\<forall>f \<in> set (fields' s). short_range (field_type f) \<and> short_range (field_name f))"
proof -
  from parse_index_data_stages [OF assms] obtain offset3 structs where
    s: "read_structures e data offset3 = Inr structs" and i: "structures idx = structs"
    by auto
  from s obtain n off off' where "read_structs e data n off = Inr (structs, off')"
    by (auto simp add: read_structures_def Let_def split: if_splits sum.splits)
  from read_structs_short [OF this] show ?thesis by (simp add: i)
qed


section \<open>Round trip of the schema payload\<close>

lemma length_le_bytes [simp]: "length (le_bytes n v) = n"
  by (induction n arbitrary: v) simp_all

lemma length_pack_int [simp]: "length (pack_int e n v) = n"
  by (cases e) (simp_all add: pack_int_def)

lemma le_uint_le_bytes: "le_uint (le_bytes n v) = v mod 256 ^ n"
proof (induction n arbitrary: v)
  case 0
  show ?case by simp
next
  case (Suc n)
  have "uint (word_of_int v :: byte) = v mod 256"
    by (simp add: uint_word_of_int take_bit_eq_mod)
  then have "le_uint (le_bytes (Suc n) v) = v mod 256 + 256 * ((v div 256) mod 256 ^ n)"
    by (simp add: Suc.IH)
  also have "\<dots> = v mod (256 * 256 ^ n)"
    using zmod_zmult2_eq [of "256 ^ n" v 256] by simp
  finally show ?case by simp
qed

lemma unsigned_of_pack_int: "unsigned_of e (pack_int e n v) = v mod 256 ^ n"
  by (cases e) (simp_all add: unsigned_of_def pack_int_def le_uint_le_bytes)

lemma signed_of_pack_short: "short_range v \<Longrightarrow> signed_of e (pack_int e 2 v) = v"
proof -
  assume r: "short_range v"
  have m: "v mod 65536 = (if v < 0 then v + 65536 else v)"
  proof (cases "v < 0")
    case True
    have "(v + 65536) mod 65536 = v + 65536"
      using r True by (intro mod_pos_pos_trivial) (simp_all add: short_range_def)
    then show ?thesis using True by simp
  next
    case False
    then show ?thesis using r by (simp add: short_range_def)
  qed
  show ?thesis
    using r by (simp add: signed_of_def unsigned_of_pack_int Let_def m short_range_def)
qed

lemma signed_of_pack_count:
  "0 \<le> v \<Longrightarrow> v < 2 ^ 31 \<Longrightarrow> signed_of e (pack_int e 4 v) = v"
  by (simp add: signed_of_def unsigned_of_pack_int Let_def)


lemma struct_unpack_from_append:
  "length x = sz \<Longrightarrow> struct_unpack_from sz (pre @ x @ post) (int (length pre)) = Inr x"
  by (simp add: struct_unpack_from_def Let_def)

lemma py_slice_append:
  "py_slice (pre @ x @ post) (int (length pre)) (int (length pre) + int (length x)) = x"
  by (simp add: py_slice_def slice_index_def Let_def)

lemma py_slice_from_append:
  "py_slice_from (pre @ rest) (int (length pre)) = rest"
  by (simp add: py_slice_from_def slice_index_def)

lemma Int_unpack_from_append:
  "0 \<le> v \<Longrightarrow> v < 2 ^ 31
     \<Longrightarrow> Int_unpack_from e (pre @ pack_int e 4 v @ post) (int (length pre)) = Inr v"
  by (simp add: Int_unpack_from_def struct_unpack_from_append signed_of_pack_count)

lemma Short_unpack_from_append:
  "short_range v
     \<Longrightarrow> Short_unpack_from e (pre @ pack_int e 2 v @ post) (int (length pre)) = Inr v"
  by (simp add: Short_unpack_from_def struct_unpack_from_append signed_of_pack_short)

lemma StructField_unpack_from_append:
  assumes "short_range (field_type f)" "short_range (field_name f)"
  shows "StructField_unpack_from e (pre @ encode_field e f @ post) (int (length pre)) = Inr f"
proof -
  have "length (encode_field e f) = 4"
    by (simp add: encode_field_def)
  then have "struct_unpack_from 4 (pre @ encode_field e f @ post) (int (length pre))
      = Inr (encode_field e f)"
    by (rule struct_unpack_from_append)
  then show ?thesis
    using assms
    by (simp add: StructField_unpack_from_def encode_field_def signed_of_pack_short)
qed

lemma split_at_encode_strings:
  "\<forall>s \<in> set ss. 0 \<notin> set s
     \<Longrightarrow> split_at 0 (length ss) (encode_strings ss @ rest) = ss @ [rest]"
proof (induction ss)
  case Nil
  show ?case by (simp add: encode_strings_def)
next
  case (Cons s ss)
  have s: "\<forall>b \<in> set s. b \<noteq> 0" using Cons.prems by auto
  have e: "encode_strings (s # ss) @ rest = s @ 0 # (encode_strings ss @ rest)"
    by (simp add: encode_strings_def)
  have t: "takeWhile (\<lambda>b. b \<noteq> 0) (s @ 0 # (encode_strings ss @ rest)) = s"
    using s by (simp add: takeWhile_append2)
  have d: "dropWhile (\<lambda>b. b \<noteq> 0) (s @ 0 # (encode_strings ss @ rest))
      = 0 # (encode_strings ss @ rest)"
    using s by (simp add: dropWhile_append2)
  show ?case
    using Cons by (simp add: e t d)
qed

lemma length_encode_strings:
  "int (length (encode_strings ss)) = int (sum_list (map length ss)) + int (length ss)"
  by (induction ss) (simp_all add: encode_strings_def)

lemma names_of_encode_strings:
  assumes "\<forall>s \<in> set ss. 0 \<notin> set s"
  shows "butlast (py_split 0 (int (length ss)) (encode_strings ss @ rest)) = ss"
  by (simp add: py_split_def split_at_encode_strings [OF assms])

lemma align_padding: "align (int n) = int (n + padding n)"
proof -
  have "n mod 4 = 0 \<or> n mod 4 = 1 \<or> n mod 4 = 2 \<or> n mod 4 = 3" by presburger
  moreover have "int n mod 4 = int (n mod 4)" by (simp add: zmod_int)
  ultimately show ?thesis
    by (auto simp add: align_def padding_def Let_def)
qed

lemma length_pad4: "length (pad4 fill xs) = length xs + padding (length xs)"
  by (simp add: pad4_def)

lemma chunks2_packed:
  "chunks2 (concat (map (\<lambda>v. pack_int e 2 v) vs)) = map (\<lambda>v. pack_int e 2 v) vs"
proof (induction vs)
  case Nil
  show ?case by simp
next
  case (Cons v vs)
  obtain a b where p: "pack_int e 2 v = [a, b]"
    using length_pack_int [of e 2 v]
    by (cases "pack_int e 2 v"; simp; rename_tac x xs; case_tac xs; simp)
  show ?case by (simp add: p Cons.IH)
qed

lemma Short_iter_unpack_packed:
  assumes "\<forall>v \<in> set vs. short_range v"
  shows "Short_iter_unpack e (concat (map (\<lambda>v. pack_int e 2 v) vs)) = Inr vs"
proof -
  have l: "length (concat (map (\<lambda>v. pack_int e 2 v) vs)) = 2 * length vs"
    by (induction vs) simp_all
  have "map (signed_of e) (map (\<lambda>v. pack_int e 2 v) vs) = vs"
    using assms by (induction vs) (simp_all add: signed_of_pack_short)
  then show ?thesis
    by (simp add: Short_iter_unpack_def l chunks2_packed)
qed


lemma length_encode_fields:
  "length (concat (map (encode_field e) fs)) = 4 * length fs"
  by (induction fs) (simp_all add: encode_field_def)

lemma read_fields_encoded:
  assumes "\<forall>f \<in> set fs. short_range (field_type f) \<and> short_range (field_name f)"
  shows "read_fields e (pre @ concat (map (encode_field e) fs) @ post) (length fs)
           (int (length pre))
         = Inr (fs, int (length pre) + 4 * int (length fs))"
  using assms
proof (induction fs arbitrary: pre)
  case Nil
  show ?case by simp
next
  case (Cons f fs)
  let ?data = "pre @ concat (map (encode_field e) (f # fs)) @ post"
  have d1: "?data = pre @ encode_field e f @ (concat (map (encode_field e) fs) @ post)"
    by simp
  have d2: "?data = (pre @ encode_field e f) @ concat (map (encode_field e) fs) @ post"
    by simp
  have u: "StructField_unpack_from e ?data (int (length pre)) = Inr f"
    unfolding d1 using Cons.prems by (intro StructField_unpack_from_append) simp_all
  have "read_fields e ?data (length fs) (int (length (pre @ encode_field e f)))
      = Inr (fs, int (length (pre @ encode_field e f)) + 4 * int (length fs))"
    unfolding d2 using Cons.prems by (intro Cons.IH) simp
  then have r: "read_fields e ?data (length fs) (int (length pre) + 4)
      = Inr (fs, int (length pre) + 4 + 4 * int (length fs))"
    by (simp add: encode_field_def add.commute)
  show ?case
    using u r by (simp del: concat.simps map_append list.map)
qed

lemma length_encode_structure:
  "length (encode_structure e s) = 4 + 4 * length (fields' s)"
  by (simp add: encode_structure_def length_encode_fields)

lemma read_structs_encoded:
  assumes "\<forall>s \<in> set ss. short_range (name s) \<and> length (fields' s) < 2 ^ 15
          \<and> (\<forall>f \<in> set (fields' s). short_range (field_type f) \<and> short_range (field_name f))"
  shows "\<exists>offset'. read_structs e (pre @ concat (map (encode_structure e) ss) @ post)
           (length ss) (int (length pre)) = Inr (ss, offset')"
  using assms
proof (induction ss arbitrary: pre)
  case Nil
  show ?case by simp
next
  case (Cons s ss)
  let ?data = "pre @ concat (map (encode_structure e) (s # ss)) @ post"
  let ?fs = "concat (map (encode_field e) (fields' s))"
  let ?rest = "concat (map (encode_structure e) ss) @ post"
  have sr: "short_range (name s)" and fl: "length (fields' s) < 2 ^ 15"
    and fr: "\<forall>f \<in> set (fields' s). short_range (field_type f) \<and> short_range (field_name f)"
    using Cons.prems by simp_all
  have flr: "short_range (int (length (fields' s)))"
    using fl by (simp add: short_range_def)
  have d1: "?data = pre @ pack_int e 2 (name s)
              @ (pack_int e 2 (int (length (fields' s))) @ ?fs @ ?rest)"
    by (simp add: encode_structure_def)
  have d2: "?data = (pre @ pack_int e 2 (name s)) @ pack_int e 2 (int (length (fields' s)))
              @ (?fs @ ?rest)"
    by (simp add: encode_structure_def)
  have d3: "?data = (pre @ pack_int e 2 (name s) @ pack_int e 2 (int (length (fields' s))))
              @ ?fs @ ?rest"
    by (simp add: encode_structure_def)
  have d4: "?data = (pre @ encode_structure e s) @ concat (map (encode_structure e) ss) @ post"
    by simp
  have a: "Short_unpack_from e ?data (int (length pre)) = Inr (name s)"
    unfolding d1 using sr by (rule Short_unpack_from_append)
  have "Short_unpack_from e ?data (int (length (pre @ pack_int e 2 (name s))))
      = Inr (int (length (fields' s)))"
    unfolding d2 using flr by (rule Short_unpack_from_append)
  then have b: "Short_unpack_from e ?data (int (length pre) + 2) = Inr (int (length (fields' s)))"
    by (simp add: add.commute)
  have "read_fields e ?data (length (fields' s))
          (int (length (pre @ pack_int e 2 (name s) @ pack_int e 2 (int (length (fields' s))))))
      = Inr (fields' s,
             int (length (pre @ pack_int e 2 (name s) @ pack_int e 2 (int (length (fields' s)))))
             + 4 * int (length (fields' s)))"
    unfolding d3 using fr by (rule read_fields_encoded)
  then have c: "read_fields e ?data (length (fields' s)) (int (length pre) + 4)
      = Inr (fields' s, int (length (pre @ encode_structure e s)))"
    by (simp add: length_encode_structure add.commute)
  have "\<exists>offset'. read_structs e ?data (length ss) (int (length (pre @ encode_structure e s)))
      = Inr (ss, offset')"
    unfolding d4 using Cons.prems by (intro Cons.IH) simp
  then obtain offset' where
    d: "read_structs e ?data (length ss) (int (length (pre @ encode_structure e s)))
      = Inr (ss, offset')" ..
  have "read_structs e ?data (Suc (length ss)) (int (length pre)) = Inr (s # ss, offset')"
    by (simp only: read_structs.simps a b c d sum.case prod.case nat_int) simp
  then show ?case by simp
qed


lemma length_bytes_of [simp]: "length (bytes_of s) = length s"
  by (simp add: bytes_of_def)

lemma read_names_encoded:
  assumes nul: "\<forall>s \<in> set ss. 0 \<notin> set s" and len: "length ss < 2 ^ 31"
  shows "read_names e (bytes_of ''SDNANAME'' @ pack_int e 4 (int (length ss))
                       @ encode_strings ss @ rest)
         = Inr (ss, align (int (length (bytes_of ''SDNANAME'' @ pack_int e 4 (int (length ss))
                                        @ encode_strings ss))))"
proof -
  let ?data = "bytes_of ''SDNANAME'' @ pack_int e 4 (int (length ss)) @ encode_strings ss @ rest"
  have c: "Int_unpack_from e ?data 8 = Inr (int (length ss))"
    using Int_unpack_from_append [of "int (length ss)" e "bytes_of ''SDNANAME''"
        "encode_strings ss @ rest"] len
    by simp
  have "py_slice_from ((bytes_of ''SDNANAME'' @ pack_int e 4 (int (length ss)))
          @ encode_strings ss @ rest)
          (int (length (bytes_of ''SDNANAME'' @ pack_int e 4 (int (length ss)))))
        = encode_strings ss @ rest"
    by (rule py_slice_from_append)
  then have p: "py_slice_from ?data 12 = encode_strings ss @ rest"
    by simp
  show ?thesis
    by (simp add: read_names_def c p names_of_encode_strings [OF nul] Let_def
        length_encode_strings add.commute add.left_commute)
qed

lemma read_type_names_encoded:
  assumes nul: "\<forall>s \<in> set ss. 0 \<notin> set s" and len: "length ss < 2 ^ 31"
  shows "read_type_names e (pre @ bytes_of ''TYPE'' @ pack_int e 4 (int (length ss))
                            @ encode_strings ss @ rest) (int (length pre))
         = Inr (ss, int (length ss),
                align (int (length (pre @ bytes_of ''TYPE'' @ pack_int e 4 (int (length ss))
                                    @ encode_strings ss))))"
proof -
  let ?data = "pre @ bytes_of ''TYPE'' @ pack_int e 4 (int (length ss))
               @ encode_strings ss @ rest"
  have "py_slice (pre @ bytes_of ''TYPE'' @ (pack_int e 4 (int (length ss))
            @ encode_strings ss @ rest))
          (int (length pre)) (int (length pre) + int (length (bytes_of ''TYPE'')))
        = bytes_of ''TYPE''"
    by (rule py_slice_append)
  then have t: "py_slice ?data (int (length pre)) (int (length pre) + 4) = bytes_of ''TYPE''"
    by simp
  have "Int_unpack_from e ((pre @ bytes_of ''TYPE'') @ pack_int e 4 (int (length ss))
            @ (encode_strings ss @ rest)) (int (length (pre @ bytes_of ''TYPE'')))
        = Inr (int (length ss))"
    using len by (intro Int_unpack_from_append) simp_all
  then have c: "Int_unpack_from e ?data (int (length pre) + 4) = Inr (int (length ss))"
    by (simp add: add.commute)
  have "py_slice_from ((pre @ bytes_of ''TYPE'' @ pack_int e 4 (int (length ss)))
          @ encode_strings ss @ rest)
          (int (length (pre @ bytes_of ''TYPE'' @ pack_int e 4 (int (length ss)))))
        = encode_strings ss @ rest"
    by (rule py_slice_from_append)
  then have p: "py_slice_from ?data (int (length pre) + 8) = encode_strings ss @ rest"
    by (simp add: add.commute)
  show ?thesis
    by (simp add: read_type_names_def t c p names_of_encode_strings [OF nul] Let_def
        length_encode_strings add.commute add.left_commute)
qed

lemma read_type_sizes_encoded:
  assumes rng: "\<forall>v \<in> set vs. short_range v"
  shows "read_type_sizes e (pre @ bytes_of ''TLEN'' @ concat (map (\<lambda>v. pack_int e 2 v) vs) @ rest)
           tns (int (length vs)) (int (length pre))
         = Inr (zip tns vs,
                align (int (length (pre @ bytes_of ''TLEN''
                                    @ concat (map (\<lambda>v. pack_int e 2 v) vs)))))"
proof -
  let ?sz = "concat (map (\<lambda>v. pack_int e 2 v) vs)"
  let ?data = "pre @ bytes_of ''TLEN'' @ ?sz @ rest"
  have l: "length ?sz = 2 * length vs"
    by (induction vs) simp_all
  have "py_slice (pre @ bytes_of ''TLEN'' @ (?sz @ rest))
          (int (length pre)) (int (length pre) + int (length (bytes_of ''TLEN'')))
        = bytes_of ''TLEN''"
    by (rule py_slice_append)
  then have t: "py_slice ?data (int (length pre)) (int (length pre) + 4) = bytes_of ''TLEN''"
    by simp
  have "py_slice ((pre @ bytes_of ''TLEN'') @ ?sz @ rest)
          (int (length (pre @ bytes_of ''TLEN'')))
          (int (length (pre @ bytes_of ''TLEN'')) + int (length ?sz))
        = ?sz"
    by (rule py_slice_append)
  then have p: "py_slice ?data (int (length pre) + 4) (int (length pre) + 4 + 2 * int (length vs))
        = ?sz"
    by (simp add: l add.commute add.left_commute)
  show ?thesis
    unfolding read_type_sizes_def Let_def t p Short_iter_unpack_packed [OF rng]
    by (simp add: l add.commute add.left_commute)
qed

lemma read_structures_encoded:
  assumes "\<forall>s \<in> set ss. short_range (name s) \<and> length (fields' s) < 2 ^ 15
          \<and> (\<forall>f \<in> set (fields' s). short_range (field_type f) \<and> short_range (field_name f))"
    and len: "length ss < 2 ^ 31"
  shows "read_structures e (pre @ bytes_of ''STRC'' @ pack_int e 4 (int (length ss))
                            @ concat (map (encode_structure e) ss) @ rest) (int (length pre))
         = Inr ss"
proof -
  let ?body = "concat (map (encode_structure e) ss)"
  let ?data = "pre @ bytes_of ''STRC'' @ pack_int e 4 (int (length ss)) @ ?body @ rest"
  have "py_slice (pre @ bytes_of ''STRC'' @ (pack_int e 4 (int (length ss)) @ ?body @ rest))
          (int (length pre)) (int (length pre) + int (length (bytes_of ''STRC'')))
        = bytes_of ''STRC''"
    by (rule py_slice_append)
  then have t: "py_slice ?data (int (length pre)) (int (length pre) + 4) = bytes_of ''STRC''"
    by simp
  have "Int_unpack_from e ((pre @ bytes_of ''STRC'') @ pack_int e 4 (int (length ss))
            @ (?body @ rest)) (int (length (pre @ bytes_of ''STRC'')))
        = Inr (int (length ss))"
    using len by (intro Int_unpack_from_append) simp_all
  then have c: "Int_unpack_from e ?data (int (length pre) + 8 - 4) = Inr (int (length ss))"
    by (simp add: add.commute)
  have "\<exists>offset'. read_structs e ((pre @ bytes_of ''STRC'' @ pack_int e 4 (int (length ss)))
            @ ?body @ rest) (length ss)
            (int (length (pre @ bytes_of ''STRC'' @ pack_int e 4 (int (length ss)))))
        = Inr (ss, offset')"
    using assms(1) by (rule read_structs_encoded)
  then obtain offset' where
    r: "read_structs e ?data (length ss) (int (length pre) + 8) = Inr (ss, offset')"
    by (auto simp add: add.commute)
  show ?thesis
    unfolding read_structures_def Let_def t c
    by (simp add: r)
qed


lemma parse_index_data_encoded:
  assumes enc: "encodable idx"
  shows "parse_index_data e (encode_index e fill idx @ rest) = Inr idx"
proof -
  define ns where "ns = names idx"
  define ts where "ts = types idx"
  define ss where "ss = structures idx"
  define A1 where "A1 = bytes_of ''SDNANAME'' @ pack_int e 4 (int (length ns)) @ encode_strings ns"
  define P1 where "P1 = replicate (padding (length A1)) fill"
  define A2 where "A2 = (A1 @ P1) @ bytes_of ''TYPE'' @ pack_int e 4 (int (length (map fst ts)))
                        @ encode_strings (map fst ts)"
  define P2 where "P2 = replicate (padding (length A2)) fill"
  define A3 where "A3 = (A2 @ P2) @ bytes_of ''TLEN''
                        @ concat (map (\<lambda>v. pack_int e 2 v) (map snd ts))"
  define P3 where "P3 = replicate (padding (length A3)) fill"
  define T4 where "T4 = bytes_of ''STRC'' @ pack_int e 4 (int (length ss))
                        @ concat (map (encode_structure e) ss) @ rest"
  define data where "data = encode_index e fill idx @ rest"
  have sizes: "concat (map (\<lambda>t. pack_int e 2 (snd t)) ts)
      = concat (map (\<lambda>v. pack_int e 2 v) (map snd ts))"
    by (simp add: comp_def)
  have d4: "data = (A3 @ P3) @ T4"
    unfolding data_def encode_index_def Let_def pad4_def T4_def P3_def A3_def P2_def A2_def
      P1_def A1_def ns_def ts_def ss_def
    by (simp add: comp_def)
  have d3: "data = (A2 @ P2) @ bytes_of ''TLEN''
                   @ concat (map (\<lambda>v. pack_int e 2 v) (map snd ts)) @ (P3 @ T4)"
    unfolding d4 A3_def by simp
  have d2: "data = (A1 @ P1) @ bytes_of ''TYPE'' @ pack_int e 4 (int (length (map fst ts)))
                   @ encode_strings (map fst ts) @ (P2 @ bytes_of ''TLEN''
                   @ concat (map (\<lambda>v. pack_int e 2 v) (map snd ts)) @ (P3 @ T4))"
    unfolding d3 A2_def by simp
  have d1: "data = bytes_of ''SDNANAME'' @ pack_int e 4 (int (length ns)) @ encode_strings ns
                   @ (P1 @ bytes_of ''TYPE'' @ pack_int e 4 (int (length (map fst ts)))
                   @ encode_strings (map fst ts) @ (P2 @ bytes_of ''TLEN''
                   @ concat (map (\<lambda>v. pack_int e 2 v) (map snd ts)) @ (P3 @ T4)))"
    unfolding d2 A1_def by simp
  have l1: "align (int (length A1)) = int (length (A1 @ P1))"
    by (simp add: align_padding P1_def)
  have l2: "align (int (length A2)) = int (length (A2 @ P2))"
    by (simp add: align_padding P2_def)
  have l3: "align (int (length A3)) = int (length (A3 @ P3))"
    by (simp add: align_padding P3_def)
  have w_ns: "\<forall>s \<in> set ns. 0 \<notin> set s" and n_ns: "length ns < 2 ^ 31"
    and w_tn: "\<forall>s \<in> set (map fst ts). 0 \<notin> set s" and n_ts: "length (map fst ts) < 2 ^ 31"
    and w_sz: "\<forall>v \<in> set (map snd ts). short_range v"
    and n_ss: "length ss < 2 ^ 31"
    and w_ss: "\<forall>s \<in> set ss. short_range (name s) \<and> length (fields' s) < 2 ^ 15
          \<and> (\<forall>f \<in> set (fields' s). short_range (field_type f) \<and> short_range (field_name f))"
    using enc by (simp_all add: encodable_def ns_def ts_def ss_def)
  have "py_slice ([] @ bytes_of ''SDNANAME'' @ (pack_int e 4 (int (length ns))
          @ encode_strings ns @ (P1 @ bytes_of ''TYPE''
          @ pack_int e 4 (int (length (map fst ts)))
          @ encode_strings (map fst ts) @ (P2 @ bytes_of ''TLEN''
          @ concat (map (\<lambda>v. pack_int e 2 v) (map snd ts)) @ (P3 @ T4)))))
        (int (length ([] :: bytes)))
        (int (length ([] :: bytes)) + int (length (bytes_of ''SDNANAME'')))
      = bytes_of ''SDNANAME''"
    by (rule py_slice_append)
  then have r0: "py_slice data 0 8 = bytes_of ''SDNANAME''"
    unfolding d1 by simp
  define o1 where "o1 = int (length (A1 @ P1))"
  define o2 where "o2 = int (length (A2 @ P2))"
  define o3 where "o3 = int (length (A3 @ P3))"
  have "read_names e data = Inr (ns, align (int (length A1)))"
    unfolding d1 A1_def
    using w_ns n_ns by (rule read_names_encoded)
  then have r1: "read_names e data = Inr (ns, o1)"
    by (simp only: l1 o1_def)
  have "read_type_names e data (int (length (A1 @ P1)))
      = Inr (map fst ts, int (length (map fst ts)), align (int (length A2)))"
    unfolding d2 A2_def
    using w_tn n_ts by (rule read_type_names_encoded)
  then have r2: "read_type_names e data o1 = Inr (map fst ts, int (length ts), o2)"
    by (simp only: l2 o1_def o2_def length_map)
  have "read_type_sizes e data (map fst ts) (int (length (map snd ts))) (int (length (A2 @ P2)))
      = Inr (zip (map fst ts) (map snd ts), align (int (length A3)))"
    unfolding d3 A3_def
    using w_sz by (rule read_type_sizes_encoded)
  then have "read_type_sizes e data (map fst ts) (int (length (map snd ts))) o2
      = Inr (zip (map fst ts) (map snd ts), o3)"
    by (simp only: l3 o2_def o3_def)
  then have r3: "read_type_sizes e data (map fst ts) (int (length ts)) o2
      = Inr (ts, o3)"
    by (simp add: zip_map_fst_snd)
  have "read_structures e data (int (length (A3 @ P3))) = Inr ss"
    unfolding d4 T4_def
    using w_ss n_ss by (rule read_structures_encoded)
  then have r4: "read_structures e data o3 = Inr ss"
    by (simp only: o3_def)
  have "parse_index_data e data = Inr \<lparr>names = ns, types = ts, structures = ss\<rparr>"
    by (simp add: parse_index_data_def r0 r1 r2 r3 r4)
  then show ?thesis
    by (simp add: data_def ns_def ts_def ss_def)
qed


text \<open>
  Claim C1. Decoding the payload that encodes a schema by the grammar of spec section 4.3
  gives back the names, the types and the structures of that schema, in order.
\<close>

theorem schema_roundtrip:
  "encodable idx \<Longrightarrow> parse_index_data e (encode_index e fill idx) = Inr idx"
  using parse_index_data_encoded [of idx e fill "[]"] by simp

theorem schema_roundtrip_witness:
  "encodable scenario_index
   \<and> parse_index_data Little (encode_index Little 0 scenario_index) = Inr scenario_index
   \<and> parse_index_data Big (encode_index Big 7 scenario_index) = Inr scenario_index"
proof -
  have e: "encodable scenario_index"
    by (simp add: encodable_def scenario_index_def short_range_def bytes_of_def)
  show ?thesis
    using e schema_roundtrip [OF e, of Little 0] schema_roundtrip [OF e, of Big 7] by simp
qed

text \<open>
  Claim C6, as the code has it. The decoder does not compare the indices with the lengths of
  \<open>types\<close> and \<open>names\<close>: a payload with dangling indices decodes without error.
\<close>

theorem dangling_index_counterexample:
  "\<exists>idx. parse_index_data Little dangling_payload = Inr idx \<and> \<not> indices_in_range idx
     \<and> (\<exists>s \<in> set (structures idx). \<not> name s < int (length (types idx)))"
  by (simp add: dangling_decodes indices_in_range_def dangling_index_def)

lemma struct_unpack_from_halves:
  assumes "struct_unpack_from 4 data q = Inr bs"
  shows "struct_unpack_from 2 data q = Inr (take 2 bs)
       \<and> struct_unpack_from 2 data (q + 2) = Inr (drop 2 bs)"
proof (cases "q < 0")
  case True
  from assms True have c: "q + 4 \<le> 0" "0 \<le> q + int (length data)"
    and bs: "bs = take 4 (drop (nat (q + int (length data))) data)"
    by (auto simp add: struct_unpack_from_def Let_def split: if_splits)
  have n: "nat (int (length data) + (q + 2)) = Suc (Suc (nat (q + int (length data))))"
    using c by arith
  have a: "struct_unpack_from 2 data q = Inr (take 2 bs)"
    using True c by (simp add: struct_unpack_from_def Let_def bs)
  have b: "struct_unpack_from 2 data (q + 2) = Inr (drop 2 bs)"
    using True c
    by (simp add: struct_unpack_from_def Let_def bs n drop_take add.commute)
  show ?thesis using a b by simp
next
  case False
  from assms False have c: "4 \<le> int (length data) - q"
    and bs: "bs = take 4 (drop (nat q) data)"
    by (auto simp add: struct_unpack_from_def Let_def split: if_splits)
  have n: "nat (q + 2) = nat q + 2"
    using False by simp
  have a: "struct_unpack_from 2 data q = Inr (take 2 bs)"
    using False c by (simp add: struct_unpack_from_def Let_def bs)
  have b: "struct_unpack_from 2 data (q + 2) = Inr (drop 2 bs)"
    using False c
    by (simp add: struct_unpack_from_def Let_def bs n drop_take add.commute)
  show ?thesis using a b by simp
qed

lemma StructField_as_shorts:
  assumes "StructField_unpack_from e data q = Inr f"
  shows "Short_unpack_from e data q = Inr (field_type f)
       \<and> Short_unpack_from e data (q + 2) = Inr (field_name f)"
proof -
  from assms obtain bs where u: "struct_unpack_from 4 data q = Inr bs"
    and f: "f = \<lparr>field_type = signed_of e (take 2 bs), field_name = signed_of e (drop 2 bs)\<rparr>"
    by (auto simp add: StructField_unpack_from_def split: sum.splits)
  show ?thesis
    using struct_unpack_from_halves [OF u] by (simp add: Short_unpack_from_def f)
qed

lemma read_fields_stored:
  "read_fields e data n offset = Inr (fs, offset')
     \<Longrightarrow> length fs = n \<and> offset' = offset + 4 * int n
       \<and> (\<forall>j < n. Short_unpack_from e data (offset + 4 * int j) = Inr (field_type (fs ! j))
               \<and> Short_unpack_from e data (offset + 4 * int j + 2)
                   = Inr (field_name (fs ! j)))"
proof (induction n arbitrary: offset fs)
  case 0
  then show ?case by simp
next
  case (Suc n)
  from Suc.prems obtain f fs' where
    u: "StructField_unpack_from e data offset = Inr f"
    and r: "read_fields e data n (offset + 4) = Inr (fs', offset')"
    and fs: "fs = f # fs'"
    by (auto split: sum.splits)
  note IH = Suc.IH [OF r]
  note h = StructField_as_shorts [OF u]
  have "\<forall>j < Suc n. Short_unpack_from e data (offset + 4 * int j) = Inr (field_type (fs ! j))
      \<and> Short_unpack_from e data (offset + 4 * int j + 2) = Inr (field_name (fs ! j))"
  proof (intro allI impI)
    fix j assume j: "j < Suc n"
    show "Short_unpack_from e data (offset + 4 * int j) = Inr (field_type (fs ! j))
      \<and> Short_unpack_from e data (offset + 4 * int j + 2) = Inr (field_name (fs ! j))"
    proof (cases j)
      case 0
      then show ?thesis using h by (simp add: fs)
    next
      case (Suc i)
      then have "i < n" using j by simp
      with IH have "Short_unpack_from e data (offset + 4 + 4 * int i) = Inr (field_type (fs' ! i))
        \<and> Short_unpack_from e data (offset + 4 + 4 * int i + 2) = Inr (field_name (fs' ! i))"
        by blast
      moreover have "offset + 4 * int j = offset + 4 + 4 * int i"
        using Suc by simp
      ultimately show ?thesis by (simp add: fs Suc ac_simps)
    qed
  qed
  then show ?case using IH by (simp add: fs)
qed

lemma read_structs_stored:
  "read_structs e data n offset = Inr (ss, offset')
     \<Longrightarrow> length ss = n
       \<and> (\<forall>k < n. stored_structure e data (struct_offset offset ss k) (ss ! k))"
proof (induction n arbitrary: offset ss)
  case 0
  then show ?case by simp
next
  case (Suc n)
  from Suc.prems obtain ti fc fs off1 ss' where
    a: "Short_unpack_from e data offset = Inr ti"
    and b: "Short_unpack_from e data (offset + 2) = Inr fc"
    and c: "read_fields e data (nat fc) (offset + 4) = Inr (fs, off1)"
    and d: "read_structs e data n off1 = Inr (ss', offset')"
    and s: "ss = \<lparr>name = ti, fields' = fs\<rparr> # ss'"
    by (auto split: sum.splits)
  note F = read_fields_stored [OF c]
  note IH = Suc.IH [OF d]
  have off1: "off1 = offset + 4 + 4 * int (length fs)"
    using F by simp
  have first: "stored_structure e data offset \<lparr>name = ti, fields' = fs\<rparr>"
    using a b F by (simp add: stored_structure_def)
  have "\<forall>k < Suc n. stored_structure e data (struct_offset offset ss k) (ss ! k)"
  proof (intro allI impI)
    fix k assume k: "k < Suc n"
    show "stored_structure e data (struct_offset offset ss k) (ss ! k)"
    proof (cases k)
      case 0
      then show ?thesis using first by (simp add: s)
    next
      case (Suc i)
      then have "i < n" using k by simp
      with IH have "stored_structure e data (struct_offset off1 ss' i) (ss' ! i)"
        by blast
      then show ?thesis by (simp add: s Suc off1)
    qed
  qed
  then show ?case using IH by (simp add: s)
qed

lemma read_structures_stored:
  assumes "read_structures e data offset = Inr ss"
  shows "(case Int_unpack_from e data (offset + 4) of
            Inl err \<Rightarrow> False
          | Inr structure_count \<Rightarrow> length ss = nat structure_count)
       \<and> (\<forall>k \<in> {..<length ss}.
             stored_structure e data (struct_offset (offset + 8) ss k) (ss ! k))"
proof -
  from assms obtain sc off' where
    c: "Int_unpack_from e data (offset + 8 - 4) = Inr sc"
    and r: "read_structs e data (nat sc) (offset + 8) = Inr (ss, off')"
    by (auto simp add: read_structures_def Let_def split: if_splits sum.splits)
  have "offset + 8 - 4 = offset + 4" by simp
  then have c': "Int_unpack_from e data (offset + 4) = Inr sc"
    using c by (simp only:)
  show ?thesis
    using read_structs_stored [OF r] by (simp add: c')
qed

lemma parse_index_data_stored:
  assumes "parse_index_data e data = Inr idx"
  shows "stored_structures e data (structures idx)"
proof -
  from parse_index_data_stages [OF assms] obtain nms offset1 tns tc offset2 tps offset3 structs
    where s: "py_slice data 0 8 = bytes_of ''SDNANAME''"
      "read_names e data = Inr (nms, offset1)"
      "read_type_names e data offset1 = Inr (tns, tc, offset2)"
      "read_type_sizes e data tns tc offset2 = Inr (tps, offset3)"
      "read_structures e data offset3 = Inr structs"
    and i: "idx = \<lparr>names = nms, types = tps, structures = structs\<rparr>"
    by blast
  have o: "STRC_offset e data = Some offset3"
    by (simp add: STRC_offset_def s)
  show ?thesis
    using read_structures_stored [OF s(5)] by (simp add: stored_structures_def o i)
qed

text \<open>
  Claim C6, amended. Every structure type index, field count, field type index and field
  name index the decoder returns is the signed 16-bit value stored at its place in the
  \<^verbatim>\<open>STRC\<close> section of the payload, hence between -32768 and 32767; the decoder does not
  compare them with the lengths of \<open>types\<close> and \<open>names\<close>; and the payload that encodes a
  schema whose indices are in range decodes to that schema, whose indices are in range.
\<close>

theorem decoded_indices:
  "(parse_index_data e data = Inr idx \<longrightarrow>
      stored_structures e data (structures idx)
      \<and> (\<forall>s \<in> set (structures idx). short_range (name s)
           \<and> (\<forall>f \<in> set (fields' s). short_range (field_type f) \<and> short_range (field_name f))))
   \<and> (encodable idx' \<and> indices_in_range idx' \<longrightarrow>
        (\<exists>d. parse_index_data e (encode_index e fill idx') = Inr d \<and> d = idx'
            \<and> indices_in_range d))"
  using parse_index_data_short [of e data idx] parse_index_data_stored [of e data idx]
    parse_index_data_encoded [of idx' e fill "[]"]
  by simp

theorem decoded_indices_witness:
  "(\<exists>idx. parse_index_data Little dangling_payload = Inr idx
      \<and> stored_structures Little dangling_payload (structures idx)
      \<and> (\<forall>s \<in> set (structures idx). short_range (name s)))
   \<and> (\<exists>d. parse_index_data Little (encode_index Little 0 scenario_index) = Inr d
        \<and> indices_in_range d)"
proof -
  have e: "encodable scenario_index \<and> indices_in_range scenario_index"
    by (simp add: encodable_def indices_in_range_def scenario_index_def short_range_def
        bytes_of_def)
  show ?thesis
    using e dangling_decodes
      decoded_indices [of Little dangling_payload dangling_index scenario_index 0]
    by simp
qed

section \<open>Properties of the block scanner\<close>

lemma payload_end_read:
  "handle_read h n = Inr (buf, h') \<Longrightarrow> payload_end (content h) (pos h) n = Some (pos h')"
  by (auto simp add: payload_end_def handle_read_def Let_def split: if_splits)

lemma scan_step_Inr:
  assumes step: "scan_step info st = Inr st'"
  shows "\<exists>head. BlendBlockHeader_unpack info
             (take (BlendBlockHeader_size info)
                (drop (pos (file_handle st)) (content (file_handle st)))) = Inr head
         \<and> content (file_handle st') = content (file_handle st)
         \<and> payload_end (content (file_handle st))
               (pos (file_handle st) + BlendBlockHeader_size info) (size' head)
             = Some (pos (file_handle st'))
         \<and> (if code head = bytes_of ''DNA1'' then
               (\<exists>idx. blend_index st' = Some idx) \<and> end_found st' = end_found st
               \<and> file_block_heads st' = file_block_heads st
             else if code head = bytes_of ''ENDB'' then
               blend_index st' = blend_index st \<and> end_found st'
               \<and> file_block_heads st' = file_block_heads st
             else
               blend_index st' = blend_index st \<and> end_found st' = end_found st
               \<and> file_block_heads st'
                   = file_block_heads st
                     @ [(head, pos (file_handle st) + BlendBlockHeader_size info)])"
proof -
  let ?hs = "BlendBlockHeader_size info"
  from step obtain buf h1 head where
    r: "handle_read (file_handle st) (int ?hs) = Inr (buf, h1)"
    and u: "BlendBlockHeader_unpack info buf = Inr head"
    by (auto simp add: scan_step_def split: sum.splits)
  have buf: "buf = take ?hs (drop (pos (file_handle st)) (content (file_handle st)))"
    using r by (simp add: handle_read_nat)
  have len: "length buf = ?hs"
    using u by (rule BlendBlockHeader_unpack_Inr)
  have c1: "content h1 = content (file_handle st)"
    using r by (rule handle_read_Inr(1))
  have p1: "pos h1 = pos (file_handle st) + ?hs"
    using handle_read_Inr(2) [OF r] len by simp
  have pe: "\<And>h skipped h3. content h = content h1 \<Longrightarrow> pos h = pos h1 \<Longrightarrow>
      handle_read h (size' head) = Inr (skipped, h3) \<Longrightarrow>
      payload_end (content (file_handle st)) (pos (file_handle st) + ?hs) (size' head)
        = Some (pos h3) \<and> content h3 = content (file_handle st)"
    using payload_end_read handle_read_Inr(1) c1 p1 by metis
  show ?thesis
  proof (cases "code head = bytes_of ''DNA1''")
    case True
    from step r u True obtain idx h2 skipped h3 where
      pi: "parse_index info h1 head (handle_tell h1) = Inr (idx, h2)"
      and r3: "handle_read h2 (size' head) = Inr (skipped, h3)"
      and st': "st' = st\<lparr>file_handle := h3, blend_index := Some idx\<rparr>"
      by (auto simp add: scan_step_def split: sum.splits)
    have h2: "content h2 = content h1" "pos h2 = pos h1"
      using parse_index_handle [OF pi] by (simp_all add: handle_tell_def)
    show ?thesis
      using u True pe [OF h2 r3]
      by (simp add: buf [symmetric] st')
  next
    case False
    show ?thesis
    proof (cases "code head = bytes_of ''ENDB''")
      case True
      from step r u True False obtain skipped h3 where
        r3: "handle_read h1 (size' head) = Inr (skipped, h3)"
        and st': "st' = st\<lparr>file_handle := h3, end_found := True\<rparr>"
        by (auto simp add: scan_step_def split: sum.splits)
      show ?thesis
        using u True False pe [OF refl refl r3]
        by (simp add: buf [symmetric] st')
    next
      case nend: False
      from step r u nend False obtain skipped h3 where
        r3: "handle_read h1 (size' head) = Inr (skipped, h3)"
        and st': "st' = st\<lparr>file_handle := h3,
                         file_block_heads := file_block_heads st @ [(head, handle_tell h1)]\<rparr>"
        by (auto simp add: scan_step_def split: sum.splits)
      show ?thesis
        using u nend False pe [OF refl refl r3]
        by (simp add: buf [symmetric] st' handle_tell_def p1)
    qed
  qed
qed

lemma stream_blocks_Inl:
  "BlendBlockHeader_unpack info (take (BlendBlockHeader_size info) (drop p file)) = Inl err
     \<Longrightarrow> stream_blocks info file p = []"
  by (simp add: stream_blocks.simps [of info "file" p])

lemma stream_blocks_Inr:
  "BlendBlockHeader_unpack info (take (BlendBlockHeader_size info) (drop p file)) = Inr head
     \<Longrightarrow> stream_blocks info file p
         = (head, p + BlendBlockHeader_size info)
           # (case payload_end file (p + BlendBlockHeader_size info) (size' head) of
                None \<Rightarrow> []
              | Some q \<Rightarrow> stream_blocks info file q)"
  by (simp add: stream_blocks.simps [of info "file" p])

lemma stream_blocks_at_end: "length file \<le> p \<Longrightarrow> stream_blocks info file p = []"
proof -
  assume "length file \<le> p"
  then have "take (BlendBlockHeader_size info) (drop p file) = []" by simp
  then have "BlendBlockHeader_unpack info (take (BlendBlockHeader_size info) (drop p file))
      = Inl StructError"
    using BlendBlockHeader_size_pos [of info]
    by (simp add: BlendBlockHeader_unpack_def struct_unpack_def)
  then show ?thesis by (rule stream_blocks_Inl)
qed

text \<open>
  What the loop leaves, started before its end on a state at a block boundary, in terms of
  the blocks on disk from there.
\<close>

definition scan_result ::
  "BlendFileInfo \<Rightarrow> scan_state \<Rightarrow> scan_state \<Rightarrow> bool" where
  "scan_result info st st' =
     (let file = content (file_handle st);
          bs = stream_blocks info file (pos (file_handle st));
          seen = takeWhile (\<lambda>b. \<not> is_end_block b) bs
      in content (file_handle st') = file
       \<and> file_block_heads st' = file_block_heads st @ filter (\<lambda>b. \<not> is_index_block b) seen
       \<and> (end_found st' \<longleftrightarrow> (\<exists>b \<in> set bs. is_end_block b))
       \<and> (blend_index st' = None
            \<longleftrightarrow> blend_index st = None \<and> (\<forall>b \<in> set seen. \<not> is_index_block b))
       \<and> (\<not> end_found st' \<longrightarrow> pos (file_handle st') = length file)
       \<and> (end_found st' \<longrightarrow>
            (case hd (dropWhile (\<lambda>b. \<not> is_end_block b) bs) of
               (head, offset) \<Rightarrow>
                 payload_end file offset (size' head) = Some (pos (file_handle st')))))"

lemma scan_loop_result:
  "scan_loop info end st = Inr st' \<Longrightarrow> end = length (content (file_handle st))
     \<Longrightarrow> \<not> end_found st \<Longrightarrow> scan_result info st st'"
proof (induction info "end" st rule: scan_loop.induct)
  case (1 info "end" st)
  let ?file = "content (file_handle st)"
  let ?p = "pos (file_handle st)"
  let ?hs = "BlendBlockHeader_size info"
  note nf = \<open>\<not> end_found st\<close>
  note e = \<open>end = length ?file\<close>
  show ?case
  proof (cases "end \<noteq> handle_tell (file_handle st)")
    case False
    then have "scan_loop info end st = Inr st"
      by (subst scan_loop.simps) simp
    then have st': "st' = st"
      using "1.prems"(1) by simp
    have p: "?p = length ?file"
      using False e by (simp add: handle_tell_def)
    have bs: "stream_blocks info ?file (length ?file) = []"
      by (rule stream_blocks_at_end) simp
    show ?thesis
      using nf by (simp add: scan_result_def Let_def st' p bs)
  next
    case True
    then have "scan_loop info end st
        = (case scan_step info st of Inl err \<Rightarrow> Inl err | Inr st'' \<Rightarrow> scan_loop info end st'')"
      using nf by (subst scan_loop.simps) simp
    with "1.prems"(1) obtain st'' where
      step: "scan_step info st = Inr st''" and loop: "scan_loop info end st'' = Inr st'"
      by (auto split: sum.splits)
    from scan_step_Inr [OF step] obtain head where
      u: "BlendBlockHeader_unpack info (take ?hs (drop ?p ?file)) = Inr head"
      and c: "content (file_handle st'') = ?file"
      and p'': "payload_end ?file (?p + ?hs) (size' head) = Some (pos (file_handle st''))"
      and k: "if code head = bytes_of ''DNA1'' then
               (\<exists>idx. blend_index st'' = Some idx) \<and> end_found st'' = end_found st
               \<and> file_block_heads st'' = file_block_heads st
             else if code head = bytes_of ''ENDB'' then
               blend_index st'' = blend_index st \<and> end_found st''
               \<and> file_block_heads st'' = file_block_heads st
             else
               blend_index st'' = blend_index st \<and> end_found st'' = end_found st
               \<and> file_block_heads st'' = file_block_heads st @ [(head, ?p + ?hs)]"
      by blast
    have bs: "stream_blocks info ?file ?p
        = (head, ?p + ?hs) # stream_blocks info ?file (pos (file_handle st''))"
      using stream_blocks_Inr [OF u] by (simp add: p'')
    show ?thesis
    proof (cases "code head = bytes_of ''ENDB''")
      case True
      then have nd: "code head \<noteq> bytes_of ''DNA1''"
        by (simp add: bytes_of_def)
      have ef: "end_found st''" using k True nd by simp
      have "scan_loop info end st'' = Inr st''"
        using ef by (subst scan_loop.simps) simp
      then have st': "st' = st''"
        using loop by simp
      show ?thesis
        using k True nd ef
        by (simp add: scan_result_def Let_def st' bs c p'' is_end_block_def)
    next
      case False
      have nf'': "\<not> end_found st''" using k False nf by (simp split: if_splits)
      have IH: "scan_result info st'' st'"
        using "1.IH" [OF _ step loop _ nf''] True nf e c by simp
      show ?thesis
      proof (cases "code head = bytes_of ''DNA1''")
        case True
        show ?thesis
          using IH k True False
          by (auto simp add: scan_result_def Let_def bs c is_end_block_def is_index_block_def)
      next
        case nd: False
        show ?thesis
          using IH k nd False
          by (auto simp add: scan_result_def Let_def bs c is_end_block_def is_index_block_def)
      qed
    qed
  qed
qed

lemma stream_blocks_offsets:
  "sorted_wrt (<) (map snd (stream_blocks info file p))
   \<and> (\<forall>b \<in> set (stream_blocks info file p).
         p + BlendBlockHeader_size info \<le> snd b
       \<and> BlendBlockHeader_unpack info
            (take (BlendBlockHeader_size info) (drop (snd b - BlendBlockHeader_size info) file))
           = Inr (fst b))"
proof (induction info "file" p rule: stream_blocks.induct)
  case (1 info "file" p)
  let ?hs = "BlendBlockHeader_size info"
  show ?case
  proof (cases "BlendBlockHeader_unpack info (take ?hs (drop p file))")
    case (Inl err)
    then show ?thesis by (simp add: stream_blocks_Inl)
  next
    case (Inr head)
    show ?thesis
    proof (cases "payload_end file (p + ?hs) (size' head)")
      case None
      then show ?thesis
        using Inr by (simp add: stream_blocks_Inr [OF Inr])
    next
      case (Some q)
      have q: "p + ?hs \<le> q" using Some by (rule payload_end_ge)
      have IH: "sorted_wrt (<) (map snd (stream_blocks info file q))
          \<and> (\<forall>b \<in> set (stream_blocks info file q).
                q + ?hs \<le> snd b
              \<and> BlendBlockHeader_unpack info (take ?hs (drop (snd b - ?hs) file)) = Inr (fst b))"
        using "1.IH" [OF Inr Some] .
      have lt: "\<forall>b \<in> set (stream_blocks info file q). p + ?hs < snd b"
        using IH q BlendBlockHeader_size_pos [of info] by fastforce
      show ?thesis
        using IH lt q Inr by (auto simp add: stream_blocks_Inr [OF Inr] Some)
    qed
  qed
qed

lemma parse_blocks_unfold:
  "parse_blocks info h =
     (case scan_loop info (length (content h))
             \<lparr>file_handle = \<lparr>content = content h, pos = 12\<rparr>, blend_index = None,
              end_found = False, file_block_heads = []\<rparr>
      of Inl err \<Rightarrow> Inl err
       | Inr st \<Rightarrow>
           (case blend_index st of
              None \<Rightarrow> Inl MissingIndex
            | Some idx \<Rightarrow>
                if end_found st = False then Inl MissingTerminator
                else Inr (file_block_heads st, idx)))"
  by (cases h) (simp add: parse_blocks_def handle_seek_end_def handle_seek_def)

lemma scan_loop_initial:
  assumes "scan_loop info (length file)
             \<lparr>file_handle = \<lparr>content = file, pos = 12\<rparr>, blend_index = None,
              end_found = False, file_block_heads = []\<rparr> = Inr st"
  shows "content (file_handle st) = file"
    and "file_block_heads st
           = filter (\<lambda>b. \<not> is_index_block b)
               (takeWhile (\<lambda>b. \<not> is_end_block b) (stream_blocks info file 12))"
    and "end_found st \<longleftrightarrow> (\<exists>b \<in> set (stream_blocks info file 12). is_end_block b)"
    and "blend_index st = None
           \<longleftrightarrow> (\<forall>b \<in> set (takeWhile (\<lambda>b. \<not> is_end_block b) (stream_blocks info file 12)).
                  \<not> is_index_block b)"
    and "\<not> end_found st \<longrightarrow> pos (file_handle st) = length file"
    and "end_found st \<longrightarrow>
           (case hd (dropWhile (\<lambda>b. \<not> is_end_block b) (stream_blocks info file 12)) of
              (head, offset) \<Rightarrow>
                payload_end file offset (size' head) = Some (pos (file_handle st)))"
  using scan_loop_result [OF assms]
  by (simp_all add: scan_result_def Let_def)










lemma directory_of_blocks:
  assumes "parse_blocks info h = Inr (dir, idx)"
  shows "dir = filter (\<lambda>b. \<not> is_index_block b)
                 (takeWhile (\<lambda>b. \<not> is_end_block b) (stream_blocks info (content h) 12))"
proof -
  from assms obtain st where
    loop: "scan_loop info (length (content h))
             \<lparr>file_handle = \<lparr>content = content h, pos = 12\<rparr>, blend_index = None,
              end_found = False, file_block_heads = []\<rparr> = Inr st"
    and dir: "dir = file_block_heads st"
    by (auto simp add: parse_blocks_unfold split: sum.splits option.splits if_splits)
  show ?thesis
    using scan_loop_initial(2) [OF loop] dir by simp
qed

text \<open>
  Claim C2. After a successful scan the directory holds no block tagged \<^verbatim>\<open>DNA1\<close> and no
  block tagged \<^verbatim>\<open>ENDB\<close>; it is the sequence of the other blocks that lie on disk before
  the terminator, in disk order, each once, each header paired with the offset of its
  payload (the header is what decodes from the bytes just before that offset).
\<close>

theorem block_directory:
  assumes "parse_blocks info h = Inr (dir, idx)"
  shows "dir = filter (\<lambda>b. \<not> is_index_block b)
                 (takeWhile (\<lambda>b. \<not> is_end_block b) (stream_blocks info (content h) 12))
       \<and> (\<forall>b \<in> set dir. \<not> is_index_block b \<and> \<not> is_end_block b)
       \<and> sorted_wrt (<) (map snd dir) \<and> distinct dir
       \<and> (\<forall>b \<in> set dir.
             BlendBlockHeader_unpack info
               (take (BlendBlockHeader_size info)
                  (drop (snd b - BlendBlockHeader_size info) (content h))) = Inr (fst b))"
proof -
  let ?bs = "stream_blocks info (content h) 12"
  let ?seen = "takeWhile (\<lambda>b. \<not> is_end_block b) ?bs"
  have d: "dir = filter (\<lambda>b. \<not> is_index_block b) ?seen"
    using assms by (rule directory_of_blocks)
  have s: "sorted_wrt (<) (map snd ?bs)"
    using stream_blocks_offsets [of info "content h" 12] by simp
  have "sorted_wrt (\<lambda>a b. snd a < snd b) ?bs"
    using s by (simp add: sorted_wrt_map)
  then have "sorted_wrt (\<lambda>a b. snd a < snd b) (take (length ?seen) ?bs)"
    by (rule sorted_wrt_take)
  then have "sorted_wrt (\<lambda>a b. snd a < snd b) ?seen"
    by (simp add: takeWhile_eq_take [symmetric])
  then have sd: "sorted_wrt (\<lambda>a b. snd a < snd b) dir"
    unfolding d by (rule sorted_wrt_filter)
  then have s1: "sorted_wrt (<) (map snd dir)"
    by (simp add: sorted_wrt_map)
  then have "distinct (map snd dir)"
    using strict_sorted_iff by blast
  then have s2: "distinct dir"
    by (rule distinct_map [THEN iffD1, THEN conjunct1])
  have n: "\<forall>b \<in> set dir. \<not> is_index_block b \<and> \<not> is_end_block b"
    unfolding d by (auto dest: set_takeWhileD)
  have "set dir \<subseteq> set ?bs"
    unfolding d by (auto dest: set_takeWhileD)
  then have hd: "\<forall>b \<in> set dir.
      BlendBlockHeader_unpack info
        (take (BlendBlockHeader_size info)
           (drop (snd b - BlendBlockHeader_size info) (content h))) = Inr (fst b)"
    using stream_blocks_offsets [of info "content h" 12] by blast
  show ?thesis
    using d n s1 s2 hd by blast
qed

lemma payload_end_eq:
  "payload_end file offset n = Some q \<Longrightarrow> offset \<le> length file \<Longrightarrow>
     - 1 \<le> n \<and> q = (if n = - 1 then length file else min (offset + nat n) (length file))"
  by (auto simp add: payload_end_def handle_read_def Let_def min_def split: if_splits)

text \<open>
  Claim C4. After a step of the scan on a block tagged \<^verbatim>\<open>DNA1\<close> whose payload decodes,
  the handle is at the end of that payload: whenever the scan goes on to read another
  header (the position is not the end of the file), and whenever the payload lies within
  the file, the position is the payload's offset plus the header's size field, whatever the
  decoder read. A size field below -1 makes the read raise, so such a step does not return.
\<close>

theorem schema_block_rewind:
  assumes step: "scan_step info st = Inr st'"
    and head: "BlendBlockHeader_unpack info
                 (take (BlendBlockHeader_size info)
                    (drop (pos (file_handle st)) (content (file_handle st)))) = Inr head"
    and dna: "code head = bytes_of ''DNA1''"
  shows "blend_index st' \<noteq> None
       \<and> - 1 \<le> size' head
       \<and> pos (file_handle st')
           = (if size' head = - 1 then length (content (file_handle st))
              else min (pos (file_handle st) + BlendBlockHeader_size info + nat (size' head))
                       (length (content (file_handle st))))
       \<and> (pos (file_handle st') \<noteq> length (content (file_handle st)) \<longrightarrow>
             int (pos (file_handle st'))
               = int (pos (file_handle st) + BlendBlockHeader_size info) + size' head)
       \<and> (0 \<le> size' head
            \<and> int (pos (file_handle st) + BlendBlockHeader_size info) + size' head
                \<le> int (length (content (file_handle st))) \<longrightarrow>
             int (pos (file_handle st'))
               = int (pos (file_handle st) + BlendBlockHeader_size info) + size' head)"
proof -
  let ?file = "content (file_handle st)"
  let ?off = "pos (file_handle st) + BlendBlockHeader_size info"
  from scan_step_Inr [OF step] head dna have
    i: "blend_index st' \<noteq> None"
    and p: "payload_end ?file ?off (size' head) = Some (pos (file_handle st'))"
    by auto
  have f: "?off \<le> length ?file"
    using head by (rule header_fits)
  have e: "- 1 \<le> size' head
      \<and> pos (file_handle st')
          = (if size' head = - 1 then length ?file
             else min (?off + nat (size' head)) (length ?file))"
    using p f by (rule payload_end_eq)
  show ?thesis
    using i e by (auto simp add: min_def)
qed


section \<open>The scenario files\<close>

lemmas scan_eval_defs =
  scan_step_def handle_read_def handle_tell_def handle_seek_def
  BlendBlockHeader_unpack_def BlendBlockHeader_size_def pointer_size_def struct_unpack_def
  signed_of_def unsigned_of_def parse_index_def scenario_info_def Let_def
  bytes_of_def data_block_def schema_block_def end_block_def

lemmas schema_eval_defs =
  scenario_payload_def scenario_index_def parse_index_data_def read_names_def
  read_type_names_def read_type_sizes_def read_structures_def py_slice_def py_slice_from_def
  slice_index_def Int_unpack_from_def Short_unpack_from_def StructField_unpack_from_def
  Short_iter_unpack_def struct_unpack_from_def py_split_def align_def

lemma file_lengths:
  "length scenario_file = 127" "length truncated_file = 107" "length no_index_file = 32"
  "length cut_file = 39" "length negative_size_file = 52"
  by (simp_all add: scenario_file_def truncated_file_def no_index_file_def data_block_def
      schema_block_def end_block_def scenario_payload_def cut_file_def negative_size_file_def
      bytes_of_def)

lemma step_data:
  "scan_step scenario_info
     \<lparr>file_handle = \<lparr>content = scenario_file, pos = 12\<rparr>, blend_index = None,
      end_found = False, file_block_heads = []\<rparr>
   = Inr \<lparr>file_handle = \<lparr>content = scenario_file, pos = 35\<rparr>, blend_index = None,
          end_found = False, file_block_heads = [(data_header, 32)]\<rparr>"
  by (simp add: scan_eval_defs scenario_file_def data_header_def)

lemma step_schema:
  "scan_step scenario_info
     \<lparr>file_handle = \<lparr>content = scenario_file, pos = 35\<rparr>, blend_index = None,
      end_found = False, file_block_heads = [(data_header, 32)]\<rparr>
   = Inr \<lparr>file_handle = \<lparr>content = scenario_file, pos = 107\<rparr>,
          blend_index = Some scenario_index,
          end_found = False, file_block_heads = [(data_header, 32)]\<rparr>"
  by (simp add: scan_eval_defs schema_eval_defs scenario_file_def)


lemma step_end:
  "scan_step scenario_info
     \<lparr>file_handle = \<lparr>content = scenario_file, pos = 107\<rparr>, blend_index = Some scenario_index,
      end_found = False, file_block_heads = [(data_header, 32)]\<rparr>
   = Inr \<lparr>file_handle = \<lparr>content = scenario_file, pos = 127\<rparr>,
          blend_index = Some scenario_index,
          end_found = True, file_block_heads = [(data_header, 32)]\<rparr>"
  by (simp add: scan_eval_defs scenario_file_def scenario_payload_def)






lemma scan_loop_step:
  "end \<noteq> pos (file_handle st) \<Longrightarrow> \<not> end_found st \<Longrightarrow> scan_step info st = Inr st'
     \<Longrightarrow> scan_loop info end st = scan_loop info end st'"
  by (subst scan_loop.simps) (simp add: handle_tell_def)


lemma scan_loop_stop:
  "end = pos (file_handle st) \<or> end_found st \<Longrightarrow> scan_loop info end st = Inr st"
  by (subst scan_loop.simps) (auto simp add: handle_tell_def)

lemma scan_scenario_file:
  "scan_loop scenario_info (length scenario_file)
     \<lparr>file_handle = \<lparr>content = scenario_file, pos = 12\<rparr>, blend_index = None,
      end_found = False, file_block_heads = []\<rparr>
   = Inr \<lparr>file_handle = \<lparr>content = scenario_file, pos = 127\<rparr>,
          blend_index = Some scenario_index,
          end_found = True, file_block_heads = [(data_header, 32)]\<rparr>"
  by (simp add: file_lengths scan_loop_step [OF _ _ step_data]
      scan_loop_step [OF _ _ step_schema] scan_loop_step [OF _ _ step_end] scan_loop_stop)







theorem block_directory_witness:
  "\<exists>dir idx. parse_blocks scenario_info \<lparr>content = scenario_file, pos = 0\<rparr> = Inr (dir, idx)
     \<and> dir = [(data_header, 32)]
     \<and> dir = filter (\<lambda>b. \<not> is_index_block b)
                (takeWhile (\<lambda>b. \<not> is_end_block b)
                   (stream_blocks scenario_info scenario_file 12))
     \<and> distinct dir"
proof -
  have pb: "parse_blocks scenario_info \<lparr>content = scenario_file, pos = 0\<rparr>
      = Inr ([(data_header, 32)], scenario_index)"
    by (simp add: parse_blocks_unfold scan_scenario_file)
  have d: "[(data_header, 32)]
      = filter (\<lambda>b. \<not> is_index_block b)
          (takeWhile (\<lambda>b. \<not> is_end_block b) (stream_blocks scenario_info scenario_file 12))"
    using block_directory [OF pb] by simp
  show ?thesis
  proof (intro exI conjI)
    show "parse_blocks scenario_info \<lparr>content = scenario_file, pos = 0\<rparr>
      = Inr ([(data_header, 32)], scenario_index)"
      by (rule pb)
    show "[(data_header, 32)] = [(data_header, 32)]"
      by (rule refl)
    show "[(data_header, 32)]
      = filter (\<lambda>b. \<not> is_index_block b)
          (takeWhile (\<lambda>b. \<not> is_end_block b) (stream_blocks scenario_info scenario_file 12))"
      by (rule d)
    show "distinct [(data_header, 32 :: nat)]"
      by simp
  qed
qed

lemma schema_header_decodes:
  "BlendBlockHeader_unpack scenario_info (take 20 (drop 35 scenario_file))
      = Inr \<lparr>code = bytes_of ''DNA1'', size' = 52, addr = 0, sdna = 0, count = 1\<rparr>"
    by (simp add: scan_eval_defs scenario_file_def scenario_payload_def)

lemma scenario_header_size: "BlendBlockHeader_size scenario_info = 20"
  by (simp add: scenario_info_def BlendBlockHeader_size_def pointer_size_def)

theorem schema_block_rewind_witness:
  "\<exists>st'. scan_step scenario_info
            \<lparr>file_handle = \<lparr>content = scenario_file, pos = 35\<rparr>, blend_index = None,
             end_found = False, file_block_heads = [(data_header, 32)]\<rparr> = Inr st'
     \<and> pos (file_handle st') = 107
     \<and> int (pos (file_handle st')) = int (35 + BlendBlockHeader_size scenario_info) + 52"
proof -
  let ?st = "\<lparr>file_handle = \<lparr>content = scenario_file, pos = 35\<rparr>, blend_index = None,
             end_found = False, file_block_heads = [(data_header, 32)]\<rparr>"
  let ?st' = "\<lparr>file_handle = \<lparr>content = scenario_file, pos = 107\<rparr>,
          blend_index = Some scenario_index,
          end_found = False, file_block_heads = [(data_header, 32)]\<rparr>"
  let ?head = "\<lparr>code = bytes_of ''DNA1'', size' = 52, addr = 0, sdna = 0, count = 1\<rparr>"
  have u': "BlendBlockHeader_unpack scenario_info
             (take (BlendBlockHeader_size scenario_info)
                (drop (pos (file_handle ?st)) (content (file_handle ?st)))) = Inr ?head"
    using schema_header_decodes by (simp add: scenario_header_size)
  have c: "code ?head = bytes_of ''DNA1''"
    by simp
  have "pos (file_handle ?st') \<noteq> length (content (file_handle ?st)) \<longrightarrow>
      int (pos (file_handle ?st'))
        = int (pos (file_handle ?st) + BlendBlockHeader_size scenario_info) + size' ?head"
    using schema_block_rewind [OF step_schema u' c] by blast
  then have "int (pos (file_handle ?st')) = int (35 + BlendBlockHeader_size scenario_info) + 52"
    by (simp add: file_lengths)
  then show ?thesis
    by (intro exI [of _ ?st'] conjI step_schema) simp_all
qed


end
